theory Spec2Isabelle
  imports Main "HOL-Library.Word"
begin

unbundle bit_operations_syntax

section \<open>Data model\<close>

text \<open>
  The mod runs inside a 64-bit Windows process. Addresses and \<open>uintptr_t\<close> values are
  64-bit words, a \<open>BYTE\<close> is an 8-bit word, a \<open>DWORD\<close> a 32-bit word and the
  \<open>SHORT\<close> returned by \<open>GetAsyncKeyState\<close> a 16-bit word. Virtual-key codes
  are C \<open>int\<close>s that are only compared and stored, so they are modelled as \<open>int\<close>.
\<close>

type_synonym addr = "64 word"
type_synonym byte = "8 word"
type_synonym dword = "32 word"
type_synonym short = "16 word"

subsection \<open>constants.h\<close>

definition HOOK_OFFSET :: addr where
  "HOOK_OFFSET = 11"

definition TOGGLE_FLAG_OFFSET :: addr where
  "TOGGLE_FLAG_OFFSET = 0x38"

subsection \<open>Platform constants (winnt.h) used by the source\<close>

definition PAGE_READWRITE :: dword where
  "PAGE_READWRITE = 0x04"

definition PAGE_WRITECOPY :: dword where
  "PAGE_WRITECOPY = 0x08"

definition PAGE_EXECUTE_READWRITE :: dword where
  "PAGE_EXECUTE_READWRITE = 0x40"

definition PAGE_EXECUTE_WRITECOPY :: dword where
  "PAGE_EXECUTE_WRITECOPY = 0x80"

definition MEM_COMMIT :: dword where
  "MEM_COMMIT = 0x1000"

record MEMORY_BASIC_INFORMATION =
  State :: dword
  Protect :: dword

subsection \<open>logger.h, MinHook.h\<close>

datatype LogLevel = LOG_DEBUG | LOG_INFO | LOG_WARNING | LOG_ERROR

datatype MH_STATUS =
    MH_UNKNOWN
  | MH_OK
  | MH_ERROR_ALREADY_INITIALIZED
  | MH_ERROR_NOT_INITIALIZED
  | MH_ERROR_ALREADY_CREATED
  | MH_ERROR_NOT_CREATED
  | MH_ERROR_ENABLED
  | MH_ERROR_DISABLED
  | MH_ERROR_NOT_EXECUTABLE
  | MH_ERROR_UNSUPPORTED_FUNCTION
  | MH_ERROR_MEMORY_ALLOC
  | MH_ERROR_MEMORY_PROTECT
  | MH_ERROR_MODULE_NOT_FOUND
  | MH_ERROR_FUNCTION_NOT_FOUND

subsection \<open>toggle_thread.h\<close>

record ToggleData =
  toggle_keys :: "int list"
  fpv_keys :: "int list"
  tpv_keys :: "int list"

subsection \<open>Observable events\<close>

text \<open>
  Every call of the logger, every call into the operating system or the hooking library
  and every access to the target's flag byte is appended to a trace, in program order.
  \<open>Call\<close> marks the entry into one of the three view actions of toggle\_thread.cpp.
  \<open>MemRead\<close> and \<open>MemWrite\<close> mark the execution of the load and of the store
  through \<open>flag_addr\<close>, whether or not the access then faults. The events of the
  calls made by dllmain.cpp carry the argument and the value returned; \<open>ThreadStarted\<close>
  marks that \<open>CreateThread\<close> has started \<open>ToggleThread\<close>.
\<close>

datatype action = SafeToggleViewState | SetFirstPersonView | SetThirdPersonView

datatype event =
    Log LogLevel
  | SetLogLevel LogLevel
  | Call action int
  | ApiVirtualQuery addr
  | ApiIsBadReadPtr addr
  | MemRead addr
  | MemWrite addr byte
  | ApiSleep nat
  | ApiVirtualAlloc addr
  | ApiVirtualFree addr bool
  | ApiGetModuleHandleA addr
  | ApiGetModuleInformation bool
  | ApiCreateThread bool
  | ThreadStarted ToggleData
  | MH_Initialize_call MH_STATUS
  | MH_CreateHook_call addr MH_STATUS
  | MH_EnableHook_call addr MH_STATUS
  | MH_DisableHook_call addr MH_STATUS
  | MH_RemoveHook_call addr MH_STATUS
  | MH_Uninitialize_call MH_STATUS

subsection \<open>Functions that do not return\<close>

text \<open>
  A function of the source can fail to return in two ways.

  It can throw a C++ exception. The only \<open>throw\<close> of the source is the
  \<open>std::runtime_error\<close> of \<open>safeToggleViewState\<close>; calls of the logger, of the
  operating system and of the hooking library are taken not to throw. A C++ exception
  is what the \<open>catch\<close> clauses of the source receive.

  Or one of its raw loads and stores can fault: the address is not mapped, or the
  store goes to a write-protected page. A fault is raised by the processor, not by a
  \<open>throw\<close>. The source is built with GCC (MinGW: its detour is the GNU assembler
  file \<open>tpv_view_hook.S\<close>), where a fault is not a C++ exception and no \<open>catch\<close>
  clause receives it, not even \<open>catch (...)\<close>: the process is terminated at the
  faulting instruction. So \<open>AccessViolation\<close> passes every handler of the model
  unchanged, up to the thread function, and the state that comes with it is the state
  in which the process ended. The load of the mod's own cell through
  \<open>g_r9_for_tpv_flag\<close> faults in the same way when the cell is not part of the
  storage.
\<close>

datatype abrupt = AccessViolation addr | runtime_error string

subsection \<open>Process state\<close>

text \<open>
  The three globals of dllmain.cpp (0 is \<open>nullptr\<close>), the word cells the mod owns
  (\<open>storage\<close>, allocated by \<open>VirtualAlloc\<close>; the detour writes the captured R9 there),
  the target's memory as the mod sees it (\<open>mem\<close>, \<open>None\<close> where an access faults;
  \<open>write_protected\<close> where a store faults), the debounce map local to
  \<open>ToggleThread\<close>, and the trace. The captured value designates game memory, which is
  kept apart from the mod's own cell.
\<close>

record machine =
  g_r9_for_tpv_flag :: addr
  fpTPV_OriginalCode :: addr
  g_tpvHookAddress :: addr
  storage :: "addr \<rightharpoonup> addr"
  mem :: "addr \<rightharpoonup> byte"
  write_protected :: "addr \<Rightarrow> bool"
  key_was_down :: "int \<rightharpoonup> bool"
  trace :: "event list"

text \<open>
  What the operating system answers during one call of a view action or one poll cycle.
  \<open>VirtualQuery\<close> is \<open>None\<close> when the call returns 0.
\<close>

record env =
  VirtualQuery :: "addr \<Rightarrow> MEMORY_BASIC_INFORMATION option"
  IsBadReadPtr :: "addr \<Rightarrow> bool"
  GetAsyncKeyState :: "int \<Rightarrow> short"

definition emit :: "event \<Rightarrow> machine \<Rightarrow> machine" where
  "emit e s = s\<lparr>trace := trace s @ [e]\<rparr>"

definition logger_log :: "LogLevel \<Rightarrow> machine \<Rightarrow> machine" where
  "logger_log level s = emit (Log level) s"

text \<open>
  The load \<open>*flag_addr\<close> and the store \<open>*flag_addr = v\<close>. A faulting access ends
  the process: nothing after it is executed.
\<close>

definition read_byte :: "addr \<Rightarrow> machine \<Rightarrow> (abrupt + byte) \<times> machine" where
  "read_byte a s =
     (case mem s a of
        None \<Rightarrow> (Inl (AccessViolation a), emit (MemRead a) s)
      | Some b \<Rightarrow> (Inr b, emit (MemRead a) s))"

definition write_byte :: "addr \<Rightarrow> byte \<Rightarrow> machine \<Rightarrow> (abrupt + unit) \<times> machine" where
  "write_byte a v s =
     (if mem s a = None \<or> write_protected s a
      then (Inl (AccessViolation a), emit (MemWrite a v) s)
      else (Inr (), emit (MemWrite a v) (s\<lparr>mem := (mem s)(a \<mapsto> v)\<rparr>)))"

section \<open>toggle\_thread.cpp\<close>

subsection \<open>setViewState\<close>

text \<open>
  The body of the \<open>try\<close> block of \<open>setViewState\<close> (step 6), and the function
  itself. Its two handlers, \<open>catch (const std::exception &)\<close> and \<open>catch (...)\<close>,
  both log an error and return \<open>false\<close>; they receive C++ exceptions only.
\<close>

definition setViewState_try :: "byte \<Rightarrow> addr \<Rightarrow> machine \<Rightarrow> (abrupt + bool) \<times> machine" where
  "setViewState_try new_state flag_addr s =
     (case read_byte flag_addr s of
        (Inl e, s1) \<Rightarrow> (Inl e, s1)
      | (Inr current_value, s1) \<Rightarrow>
          (let s2 = logger_log LOG_DEBUG s1 in
           if current_value \<noteq> new_state then
             (case write_byte flag_addr new_state s2 of
                (Inl e, s3) \<Rightarrow> (Inl e, s3)
              | (Inr _, s3) \<Rightarrow> (Inr True, logger_log LOG_DEBUG (logger_log LOG_INFO s3)))
           else (Inr True, logger_log LOG_DEBUG s2)))"

definition is_writable :: "MEMORY_BASIC_INFORMATION \<Rightarrow> bool" where
  "is_writable mem_info =
     ((Protect mem_info AND (PAGE_READWRITE OR PAGE_WRITECOPY OR
                             PAGE_EXECUTE_READWRITE OR PAGE_EXECUTE_WRITECOPY)) \<noteq> 0)"

definition setViewState :: "env \<Rightarrow> byte \<Rightarrow> string \<Rightarrow> int \<Rightarrow> machine \<Rightarrow> (abrupt + bool) \<times> machine" where
  "setViewState env new_state action_desc key_pressed_vk s =
     (if g_r9_for_tpv_flag s = 0 then (Inr False, logger_log LOG_ERROR s)
      else
        (case storage s (g_r9_for_tpv_flag s) of
           None \<Rightarrow> (Inl (AccessViolation (g_r9_for_tpv_flag s)), s)
         | Some r9_value \<Rightarrow>
             if r9_value = 0 then (Inr False, logger_log LOG_WARNING s)
             else
               (let s1 = logger_log LOG_DEBUG s;
                    flag_addr = r9_value + TOGGLE_FLAG_OFFSET;
                    s2 = logger_log LOG_DEBUG s1;
                    s3 = emit (ApiVirtualQuery flag_addr) s2
                in case VirtualQuery env flag_addr of
                     None \<Rightarrow> (Inr False, logger_log LOG_ERROR s3)
                   | Some mem_info \<Rightarrow>
                       if State mem_info \<noteq> MEM_COMMIT \<or> \<not> is_writable mem_info
                       then (Inr False, logger_log LOG_ERROR s3)
                       else
                         (case setViewState_try new_state flag_addr (logger_log LOG_DEBUG s3) of
                            (Inl (runtime_error what), s4) \<Rightarrow> (Inr False, logger_log LOG_ERROR s4)
                          | (Inl (AccessViolation a), s4) \<Rightarrow> (Inl (AccessViolation a), s4)
                          | (Inr r, s4) \<Rightarrow> (Inr r, s4)))))"

subsection \<open>safeToggleViewState, setFirstPersonView, setThirdPersonView\<close>

text \<open>
  The body of the \<open>try\<close> block of \<open>safeToggleViewState\<close>, and the function itself.
  Its handler \<open>catch (...)\<close> receives the \<open>std::runtime_error\<close> thrown after a failed
  \<open>IsBadReadPtr\<close> check; a fault of the load that follows the check is not a C++
  exception and does not reach it.
\<close>

definition safeToggleViewState_try :: "env \<Rightarrow> addr \<Rightarrow> machine \<Rightarrow> (abrupt + byte) \<times> machine" where
  "safeToggleViewState_try env flag_addr s =
     (let s1 = emit (ApiIsBadReadPtr flag_addr) s in
      if IsBadReadPtr env flag_addr
      then (Inl (runtime_error ''IsBadReadPtr check failed''), s1)
      else
        (case read_byte flag_addr s1 of
           (Inl e, s2) \<Rightarrow> (Inl e, s2)
         | (Inr current_value, s2) \<Rightarrow> (Inr current_value, logger_log LOG_DEBUG s2)))"

definition safeToggleViewState :: "env \<Rightarrow> int \<Rightarrow> machine \<Rightarrow> (abrupt + bool) \<times> machine" where
  "safeToggleViewState env key_pressed_vk s0 =
     (let s = emit (Call SafeToggleViewState key_pressed_vk) s0 in
      if g_r9_for_tpv_flag s = 0 then (Inr False, logger_log LOG_WARNING s)
      else
        (case storage s (g_r9_for_tpv_flag s) of
           None \<Rightarrow> (Inl (AccessViolation (g_r9_for_tpv_flag s)), s)
         | Some r9_value \<Rightarrow>
             if r9_value = 0 then (Inr False, logger_log LOG_WARNING s)
             else
               (let flag_addr = r9_value + TOGGLE_FLAG_OFFSET in
                case safeToggleViewState_try env flag_addr s of
                  (Inl (runtime_error what), s1) \<Rightarrow> (Inr False, logger_log LOG_ERROR s1)
                | (Inl (AccessViolation a), s1) \<Rightarrow> (Inl (AccessViolation a), s1)
                | (Inr current_value, s1) \<Rightarrow>
                    (let new_value = (if current_value = 0 then 1 else 0);
                         s2 = logger_log LOG_DEBUG s1
                     in setViewState env new_value ''Toggle'' key_pressed_vk s2))))"

definition setFirstPersonView :: "env \<Rightarrow> int \<Rightarrow> machine \<Rightarrow> (abrupt + bool) \<times> machine" where
  "setFirstPersonView env key_pressed_vk s =
     setViewState env 0 ''Set FPV'' key_pressed_vk (emit (Call SetFirstPersonView key_pressed_vk) s)"

definition setThirdPersonView :: "env \<Rightarrow> int \<Rightarrow> machine \<Rightarrow> (abrupt + bool) \<times> machine" where
  "setThirdPersonView env key_pressed_vk s =
     setViewState env 1 ''Set TPV'' key_pressed_vk (emit (Call SetThirdPersonView key_pressed_vk) s)"

subsection \<open>ToggleThread\<close>

text \<open>
  \<open>key_was_down[vk]\<close> on a \<open>std::unordered_map<int, bool>\<close>: a key that is
  missing is inserted with the value \<open>false\<close>.
\<close>

definition key_was_down_at :: "int \<Rightarrow> machine \<Rightarrow> bool \<times> machine" where
  "key_was_down_at vk s =
     (case key_was_down s vk of
        None \<Rightarrow> (False, s\<lparr>key_was_down := (key_was_down s)(vk \<mapsto> False)\<rparr>)
      | Some b \<Rightarrow> (b, s))"

definition key_down :: "env \<Rightarrow> int \<Rightarrow> bool" where
  "key_down env vk = ((GetAsyncKeyState env vk AND 0x8000) \<noteq> 0)"

text \<open>
  One of the three \<open>for (int vk : ...)\<close> loops of a poll cycle. They differ only in
  the action they call, which is the parameter \<open>act\<close>; \<open>action\<close> is the flag of the
  same name. An action that does not return ends the loop at once.
\<close>

fun for_keys ::
  "(env \<Rightarrow> int \<Rightarrow> machine \<Rightarrow> (abrupt + bool) \<times> machine) \<Rightarrow> env \<Rightarrow> int list \<Rightarrow> bool \<Rightarrow> machine
     \<Rightarrow> (abrupt + bool) \<times> machine" where
  "for_keys act env [] action s = (Inr action, s)"
| "for_keys act env (vk # vks) action s =
     (let down = key_down env vk in
      if down then
        (case key_was_down_at vk s of
           (was, s1) \<Rightarrow>
             if \<not> was then
               (case act env vk (logger_log LOG_DEBUG s1) of
                  (Inl e, s2) \<Rightarrow> (Inl e, s2)
                | (Inr _, s2) \<Rightarrow>
                    for_keys act env vks True (s2\<lparr>key_was_down := (key_was_down s2)(vk \<mapsto> down)\<rparr>))
             else for_keys act env vks action (s1\<lparr>key_was_down := (key_was_down s1)(vk \<mapsto> down)\<rparr>))
      else for_keys act env vks action (s\<lparr>key_was_down := (key_was_down s)(vk \<mapsto> down)\<rparr>))"

text \<open>The body of the \<open>try\<close> block of the polling loop, up to the adaptive sleep.\<close>

definition poll_try :: "env \<Rightarrow> ToggleData \<Rightarrow> machine \<Rightarrow> (abrupt + unit) \<times> machine" where
  "poll_try env keys s =
     (case for_keys safeToggleViewState env (toggle_keys keys) False s of
        (Inl e, s1) \<Rightarrow> (Inl e, s1)
      | (Inr a1, s1) \<Rightarrow>
          (case for_keys setFirstPersonView env (fpv_keys keys) a1 s1 of
             (Inl e, s2) \<Rightarrow> (Inl e, s2)
           | (Inr a2, s2) \<Rightarrow>
               (case for_keys setThirdPersonView env (tpv_keys keys) a2 s2 of
                  (Inl e, s3) \<Rightarrow> (Inl e, s3)
                | (Inr a3, s3) \<Rightarrow> (Inr (), emit (ApiSleep (if a3 then 15 else 50)) s3))))"

text \<open>
  One iteration of \<open>while (true)\<close>: the \<open>try\<close> block with its two handlers, which
  both log and sleep for a second. The handlers receive C++ exceptions only; a fault
  ends the iteration, and the process with it.
\<close>

definition poll_cycle :: "env \<Rightarrow> ToggleData \<Rightarrow> machine \<Rightarrow> (abrupt + unit) \<times> machine" where
  "poll_cycle env keys s =
     (case poll_try env keys s of
        (Inl (runtime_error what), s1) \<Rightarrow> (Inr (), emit (ApiSleep 1000) (logger_log LOG_ERROR s1))
      | (Inl (AccessViolation a), s1) \<Rightarrow> (Inl (AccessViolation a), s1)
      | (Inr u, s1) \<Rightarrow> (Inr u, s1))"

text \<open>
  The loop has no exit, so a run of the thread is described by the finite prefix of it
  that the list of environments (one per iteration) drives. An iteration that does not
  return ends the loop.
\<close>

fun polling_loop :: "env list \<Rightarrow> ToggleData \<Rightarrow> machine \<Rightarrow> (abrupt + unit) \<times> machine" where
  "polling_loop [] keys s = (Inr (), s)"
| "polling_loop (env # envs) keys s =
     (case poll_cycle env keys s of
        (Inl e, s1) \<Rightarrow> (Inl e, s1)
      | (Inr _, s1) \<Rightarrow> polling_loop envs keys s1)"

fun idle_loop :: "env list \<Rightarrow> machine \<Rightarrow> machine" where
  "idle_loop [] s = s"
| "idle_loop (env # envs) s = idle_loop envs (emit (ApiSleep 5000) s)"

text \<open>
  The thread function. \<open>param\<close> is \<open>None\<close> for a null pointer. The result is
  \<open>Inl (AccessViolation a)\<close> when a fault at \<open>a\<close> has ended the thread and the
  process, \<open>Inr (Some c)\<close> when the function has returned \<open>c\<close>, and \<open>Inr None\<close>
  when it is still in one of its loops after the iterations supplied.
\<close>

definition ToggleThread ::
  "ToggleData option \<Rightarrow> env list \<Rightarrow> machine \<Rightarrow> (abrupt + dword option) \<times> machine" where
  "ToggleThread param envs s =
     (case param of
        None \<Rightarrow> (Inr (Some 1), logger_log LOG_ERROR s)
      | Some data \<Rightarrow>
          (let s1 = logger_log LOG_INFO s;
               noop = (toggle_keys data = [] \<and> fpv_keys data = [] \<and> tpv_keys data = [])
           in if noop then (Inr None, idle_loop envs (logger_log LOG_INFO s1))
              else
                (let s2 = logger_log LOG_INFO (logger_log LOG_INFO (logger_log LOG_INFO s1));
                     m1 = foldl (\<lambda>m vk. m(vk \<mapsto> False)) Map.empty (toggle_keys data);
                     m2 = foldl (\<lambda>m vk. m(vk \<mapsto> False)) m1 (fpv_keys data);
                     m3 = foldl (\<lambda>m vk. m(vk \<mapsto> False)) m2 (tpv_keys data);
                     s3 = logger_log LOG_INFO (s2\<lparr>key_was_down := m3\<rparr>)
                 in case polling_loop envs data s3 of
                      (Inl e, s4) \<Rightarrow> (Inl e, s4)
                    | (Inr _, s4) \<Rightarrow> (Inr None, s4))))"

section \<open>dllmain.cpp\<close>

subsection \<open>Collaborators\<close>

text \<open>
  The configuration loader, the pattern compiler and scanner, the operating system and
  the MinHook library are not part of the sources modelled here. What they return is
  given by an environment. A call that can be made several times takes the time of the
  call, the number of events so far, so that each call has an answer of its own.
  \<open>VirtualAlloc\<close>, \<open>GetModuleHandleA\<close> and \<open>FindPattern\<close> return 0 for \<open>NULL\<close>;
  \<open>MH_CreateHook\<close> returns its status and what it stored through its third argument,
  if anything.
\<close>

record Config =
  config_toggle_keys :: "int list"
  config_fpv_keys :: "int list"
  config_tpv_keys :: "int list"
  log_level :: string
  aob_pattern :: string

record MODULEINFO =
  lpBaseOfDll :: addr
  SizeOfImage :: dword

record init_env =
  loadConfig :: Config
  VirtualAlloc :: "nat \<Rightarrow> addr"
  VirtualFree :: "nat \<Rightarrow> addr \<Rightarrow> bool"
  GetModuleHandleA :: "nat \<Rightarrow> addr"
  GetModuleInformation :: "nat \<Rightarrow> MODULEINFO option"
  parseAOB :: "string \<Rightarrow> byte list"
  FindPattern :: "addr \<Rightarrow> dword \<Rightarrow> byte list \<Rightarrow> addr"
  CreateThread :: "nat \<Rightarrow> bool"
  MH_Initialize :: "nat \<Rightarrow> MH_STATUS"
  MH_CreateHook :: "nat \<Rightarrow> addr \<Rightarrow> MH_STATUS \<times> addr option"
  MH_EnableHook :: "nat \<Rightarrow> addr \<Rightarrow> MH_STATUS"
  MH_DisableHook :: "nat \<Rightarrow> addr \<Rightarrow> MH_STATUS"
  MH_RemoveHook :: "nat \<Rightarrow> addr \<Rightarrow> MH_STATUS"
  MH_Uninitialize :: "nat \<Rightarrow> MH_STATUS"

definition now :: "machine \<Rightarrow> nat" where
  "now s = length (trace s)"

text \<open>The calls of the hooking library, each recorded with its result.\<close>

definition call_MH_DisableHook :: "init_env \<Rightarrow> addr \<Rightarrow> machine \<Rightarrow> MH_STATUS \<times> machine" where
  "call_MH_DisableHook ienv a s =
     (let mh_stat = MH_DisableHook ienv (now s) a in (mh_stat, emit (MH_DisableHook_call a mh_stat) s))"

definition call_MH_RemoveHook :: "init_env \<Rightarrow> addr \<Rightarrow> machine \<Rightarrow> MH_STATUS \<times> machine" where
  "call_MH_RemoveHook ienv a s =
     (let mh_stat = MH_RemoveHook ienv (now s) a in (mh_stat, emit (MH_RemoveHook_call a mh_stat) s))"

definition call_MH_Uninitialize :: "init_env \<Rightarrow> machine \<Rightarrow> MH_STATUS \<times> machine" where
  "call_MH_Uninitialize ienv s =
     (let mh_stat = MH_Uninitialize ienv (now s) in (mh_stat, emit (MH_Uninitialize_call mh_stat) s))"

subsection \<open>CleanupResources\<close>

text \<open>The three blocks of \<open>CleanupResources\<close>, in order.\<close>

definition cleanup_hook :: "init_env \<Rightarrow> machine \<Rightarrow> machine" where
  "cleanup_hook ienv s =
     (if g_tpvHookAddress s \<noteq> 0 \<and> fpTPV_OriginalCode s \<noteq> 0 then
        (case call_MH_DisableHook ienv (g_tpvHookAddress s) s of
           (mh_stat, s1) \<Rightarrow>
             if mh_stat = MH_OK \<or> mh_stat = MH_ERROR_DISABLED then
               (case call_MH_RemoveHook ienv (g_tpvHookAddress s) (logger_log LOG_INFO s1) of
                  (mh_stat, s2) \<Rightarrow>
                    if mh_stat = MH_OK then logger_log LOG_INFO s2 else logger_log LOG_ERROR s2)
             else logger_log LOG_ERROR s1)
      else logger_log LOG_DEBUG s)"

definition cleanup_minhook :: "init_env \<Rightarrow> machine \<Rightarrow> machine" where
  "cleanup_minhook ienv s =
     (if g_tpvHookAddress s \<noteq> 0 then
        (case call_MH_Uninitialize ienv s of
           (mh_stat, s1) \<Rightarrow>
             if mh_stat = MH_OK \<or> mh_stat = MH_ERROR_NOT_INITIALIZED
             then logger_log LOG_INFO s1 else logger_log LOG_ERROR s1)
      else s)"

definition cleanup_memory :: "init_env \<Rightarrow> machine \<Rightarrow> machine" where
  "cleanup_memory ienv s =
     (if g_r9_for_tpv_flag s \<noteq> 0 then
        (let s1 = logger_log LOG_DEBUG s;
             freed = VirtualFree ienv (now s1) (g_r9_for_tpv_flag s1);
             s2 = emit (ApiVirtualFree (g_r9_for_tpv_flag s1) freed) s1;
             s3 = (if \<not> freed then logger_log LOG_ERROR s2
                   else s2\<lparr>storage := (storage s2)(g_r9_for_tpv_flag s2 := None)\<rparr>)
         in s3\<lparr>g_r9_for_tpv_flag := 0\<rparr>)
      else logger_log LOG_DEBUG s)"

definition CleanupResources :: "init_env \<Rightarrow> machine \<Rightarrow> machine" where
  "CleanupResources ienv s =
     (let s1 = logger_log LOG_INFO s;
          s2 = cleanup_hook ienv s1;
          s3 = cleanup_minhook ienv s2;
          s4 = cleanup_memory ienv s3;
          s5 = s4\<lparr>g_tpvHookAddress := 0, fpTPV_OriginalCode := 0\<rparr>
      in logger_log LOG_INFO s5)"

subsection \<open>MainThread\<close>

text \<open>Phase 5: start the key monitoring thread.\<close>

definition MainThread_phase5 :: "init_env \<Rightarrow> Config \<Rightarrow> machine \<Rightarrow> dword \<times> machine" where
  "MainThread_phase5 ienv config s =
     (let s1 = logger_log LOG_INFO s;
          thread_data = \<lparr>toggle_keys = config_toggle_keys config,
                         fpv_keys = config_fpv_keys config,
                         tpv_keys = config_tpv_keys config\<rparr>;
          h_thread = CreateThread ienv (now s1);
          s2 = emit (ApiCreateThread h_thread) s1
      in if \<not> h_thread then
           (let s3 = logger_log LOG_ERROR s2;
                s4 = snd (call_MH_DisableHook ienv (g_tpvHookAddress s3) s3);
                s5 = snd (call_MH_RemoveHook ienv (g_tpvHookAddress s4) s4);
                s6 = snd (call_MH_Uninitialize ienv s5)
            in (1, CleanupResources ienv s6))
         else (0, logger_log LOG_INFO (emit (ThreadStarted thread_data) s2)))"

text \<open>Phase 4: initialize MinHook, create and enable the hook.\<close>

definition MainThread_phase4 :: "init_env \<Rightarrow> Config \<Rightarrow> machine \<Rightarrow> dword \<times> machine" where
  "MainThread_phase4 ienv config s =
     (let s1 = logger_log LOG_INFO s;
          mh_stat = MH_Initialize ienv (now s1);
          s2 = emit (MH_Initialize_call mh_stat) s1
      in if mh_stat \<noteq> MH_OK then (1, CleanupResources ienv (logger_log LOG_ERROR s2))
         else
           (let s3 = logger_log LOG_INFO s2;
                created = MH_CreateHook ienv (now s3) (g_tpvHookAddress s3);
                s4 = emit (MH_CreateHook_call (g_tpvHookAddress s3) (fst created)) s3;
                s5 = (case snd created of
                        None \<Rightarrow> s4
                      | Some continuation \<Rightarrow> s4\<lparr>fpTPV_OriginalCode := continuation\<rparr>)
            in if fst created \<noteq> MH_OK then
                 (let s6 = logger_log LOG_ERROR s5;
                      s7 = snd (call_MH_Uninitialize ienv s6)
                  in (1, CleanupResources ienv s7))
               else if fpTPV_OriginalCode s5 = 0 then
                 (let s6 = logger_log LOG_ERROR s5;
                      s7 = snd (call_MH_RemoveHook ienv (g_tpvHookAddress s6) s6);
                      s8 = snd (call_MH_Uninitialize ienv s7)
                  in (1, CleanupResources ienv s8))
               else
                 (let s6 = logger_log LOG_INFO (logger_log LOG_DEBUG s5);
                      enabled = MH_EnableHook ienv (now s6) (g_tpvHookAddress s6);
                      s7 = emit (MH_EnableHook_call (g_tpvHookAddress s6) enabled) s6
                  in if enabled \<noteq> MH_OK then
                       (let s8 = logger_log LOG_ERROR s7;
                            s9 = snd (call_MH_RemoveHook ienv (g_tpvHookAddress s8) s8);
                            s10 = snd (call_MH_Uninitialize ienv s9)
                        in (1, CleanupResources ienv s10))
                     else MainThread_phase5 ienv config (logger_log LOG_INFO s7))))"

text \<open>Phase 3: parse the pattern, scan the module, compute the hook address.\<close>

definition MainThread_phase3 :: "init_env \<Rightarrow> Config \<Rightarrow> MODULEINFO \<Rightarrow> machine \<Rightarrow> dword \<times> machine" where
  "MainThread_phase3 ienv config mod_info s =
     (let s1 = logger_log LOG_INFO s;
          pattern = parseAOB ienv (aob_pattern config)
      in if pattern = [] then (1, CleanupResources ienv (logger_log LOG_ERROR s1))
         else
           (let s2 = logger_log LOG_INFO s1;
                base = lpBaseOfDll mod_info;
                pattern_start = FindPattern ienv base (SizeOfImage mod_info) pattern
            in if pattern_start = 0 then (1, CleanupResources ienv (logger_log LOG_ERROR s2))
               else
                 (let s3 = logger_log LOG_INFO s2;
                      s4 = s3\<lparr>g_tpvHookAddress := pattern_start + HOOK_OFFSET\<rparr>;
                      s5 = logger_log LOG_INFO s4
                  in MainThread_phase4 ienv config s5)))"

text \<open>
  The search for the game module: \<open>for (int i = 0; i < 30 && !game_module; ++i)\<close>,
  with a sleep of one second after each miss.
\<close>

function module_search :: "init_env \<Rightarrow> nat \<Rightarrow> addr \<Rightarrow> machine \<Rightarrow> addr \<times> machine" where
  "module_search ienv i game_module s =
     (if i < 30 \<and> game_module = 0 then
        (let found = GetModuleHandleA ienv (now s);
             s1 = emit (ApiGetModuleHandleA found) s
         in if found = 0 then
              module_search ienv (i + 1) found
                (emit (ApiSleep 1000) (if i = 0 then logger_log LOG_WARNING s1 else s1))
            else module_search ienv (i + 1) found s1)
      else (game_module, s))"
  by pat_completeness auto
termination
  by (relation "measure (\<lambda>(ienv, i, game_module, s). 30 - i)") auto

declare module_search.simps [simp del]

definition log_level_of :: "string \<Rightarrow> LogLevel" where
  "log_level_of name =
     (if name = ''DEBUG'' then LOG_DEBUG
      else if name = ''INFO'' then LOG_INFO
      else if name = ''WARNING'' then LOG_WARNING
      else if name = ''ERROR'' then LOG_ERROR
      else LOG_INFO)"

text \<open>
  Phase 1 sets the logger up and logs the settings (\<open>setLogLevel\<close> logs one line
  itself; what \<open>Version::logVersionInfo\<close> logs is not modelled). Phase 2 allocates the
  cell for the captured pointer and finds the module.
\<close>

definition MainThread :: "init_env \<Rightarrow> machine \<Rightarrow> dword \<times> machine" where
  "MainThread ienv s =
     (let s1 = logger_log LOG_INFO s;
          config = loadConfig ienv;
          s2 = logger_log LOG_DEBUG (emit (SetLogLevel (log_level_of (log_level config))) s1);
          s3 = logger_log LOG_INFO (logger_log LOG_INFO (logger_log LOG_INFO (logger_log LOG_INFO
                 (logger_log LOG_INFO s2))));
          s4 = logger_log LOG_INFO (logger_log LOG_INFO (logger_log LOG_DEBUG s3));
          allocated = VirtualAlloc ienv (now s4);
          s5 = (emit (ApiVirtualAlloc allocated) s4)\<lparr>g_r9_for_tpv_flag := allocated\<rparr>
      in if g_r9_for_tpv_flag s5 = 0 then (1, logger_log LOG_ERROR s5)
         else
           (let s6 = s5\<lparr>storage := (storage s5)(g_r9_for_tpv_flag s5 \<mapsto> 0)\<rparr>;
                s7 = logger_log LOG_INFO (logger_log LOG_DEBUG s6)
            in case module_search ienv 0 0 s7 of
                 (game_module, s8) \<Rightarrow>
                   if game_module = 0 then (1, CleanupResources ienv (logger_log LOG_ERROR s8))
                   else
                     (let s9 = logger_log LOG_INFO s8;
                          info = GetModuleInformation ienv (now s9);
                          s10 = emit (ApiGetModuleInformation (info \<noteq> None)) s9
                      in case info of
                           None \<Rightarrow> (1, CleanupResources ienv (logger_log LOG_ERROR s10))
                         | Some mod_info \<Rightarrow>
                             MainThread_phase3 ienv config mod_info (logger_log LOG_DEBUG s10))))"

text \<open>
  Release after acquisition, read off a list of events: every successful
  \<open>VirtualAlloc\<close> is followed by a \<open>VirtualFree\<close> of the same address, every
  successful \<open>MH_Initialize\<close> by an \<open>MH_Uninitialize\<close>, every successful
  \<open>MH_CreateHook\<close> by an \<open>MH_RemoveHook\<close> of the same address, every successful
  \<open>MH_EnableHook\<close> by an \<open>MH_DisableHook\<close> of the same address, and the monitoring
  thread is never started.
\<close>

fun is_free :: "addr \<Rightarrow> event \<Rightarrow> bool" where
  "is_free p (ApiVirtualFree q freed) = (q = p)"
| "is_free p e = False"

fun is_uninitialize :: "event \<Rightarrow> bool" where
  "is_uninitialize (MH_Uninitialize_call st) = True"
| "is_uninitialize e = False"

fun is_remove :: "addr \<Rightarrow> event \<Rightarrow> bool" where
  "is_remove a (MH_RemoveHook_call b st) = (b = a)"
| "is_remove a e = False"

fun is_disable :: "addr \<Rightarrow> event \<Rightarrow> bool" where
  "is_disable a (MH_DisableHook_call b st) = (b = a)"
| "is_disable a e = False"

fun all_released :: "event list \<Rightarrow> bool" where
  "all_released [] = True"
| "all_released (ApiVirtualAlloc p # es) = ((p = 0 \<or> list_ex (is_free p) es) \<and> all_released es)"
| "all_released (MH_Initialize_call st # es) =
     ((st \<noteq> MH_OK \<or> list_ex is_uninitialize es) \<and> all_released es)"
| "all_released (MH_CreateHook_call a st # es) =
     ((st \<noteq> MH_OK \<or> list_ex (is_remove a) es) \<and> all_released es)"
| "all_released (MH_EnableHook_call a st # es) =
     ((st \<noteq> MH_OK \<or> list_ex (is_disable a) es) \<and> all_released es)"
| "all_released (ThreadStarted thread_data # es) = False"
| "all_released (e # es) = all_released es"

text \<open>
  The events of releasing: calls of \<open>MH_DisableHook\<close>, \<open>MH_RemoveHook\<close>,
  \<open>MH_Uninitialize\<close> and \<open>VirtualFree\<close>.
\<close>

fun is_release :: "event \<Rightarrow> bool" where
  "is_release (MH_DisableHook_call a st) = True"
| "is_release (MH_RemoveHook_call a st) = True"
| "is_release (MH_Uninitialize_call st) = True"
| "is_release (ApiVirtualFree p freed) = True"
| "is_release e = False"

section \<open>The memory scanner\<close>

text \<open>
  Modelled from the spec: \<open>FindPattern\<close> of aob\_scanner.cpp, which is not among the
  sources; dllmain.cpp only calls it. Section 3 of the specification gives the compiled
  pattern as a sequence of pairs of a byte and a wildcard flag, section 4.2 the contract
  of the scanner, for which it accepts the naive scan: try each address from the base
  on, in increasing order, as long as the pattern still fits into the region, and
  return the first one where every pattern position is a wildcard or equals the byte of
  the region there. Addresses are natural numbers here, as section 4.2 computes with
  them; the memory is a function from addresses to bytes.
\<close>

type_synonym CompiledPattern = "(byte \<times> bool) list"

fun matches_at :: "(nat \<Rightarrow> byte) \<Rightarrow> nat \<Rightarrow> CompiledPattern \<Rightarrow> bool" where
  "matches_at m a [] = True"
| "matches_at m a ((byteValue, isWildcard) # rest) =
     ((isWildcard \<or> m a = byteValue) \<and> matches_at m (Suc a) rest)"

fun scan_from :: "(nat \<Rightarrow> byte) \<Rightarrow> CompiledPattern \<Rightarrow> nat \<Rightarrow> nat \<Rightarrow> nat option" where
  "scan_from m pattern a 0 = None"
| "scan_from m pattern a (Suc candidates) =
     (if matches_at m a pattern then Some a else scan_from m pattern (Suc a) candidates)"

definition FindPattern_spec :: "(nat \<Rightarrow> byte) \<Rightarrow> nat \<Rightarrow> nat \<Rightarrow> CompiledPattern \<Rightarrow> nat option" where
  "FindPattern_spec m base len pattern =
     (if length pattern > len then None
      else scan_from m pattern base (len - length pattern + 1))"

text \<open>Events that neither acquire nor release anything.\<close>

fun quiet :: "event \<Rightarrow> bool" where
  "quiet (Log level) = True"
| "quiet (SetLogLevel level) = True"
| "quiet (ApiSleep ms) = True"
| "quiet (ApiGetModuleHandleA found) = True"
| "quiet (ApiGetModuleInformation found) = True"
| "quiet (ApiCreateThread started) = True"
| "quiet e = False"

text \<open>
  A failed run of a part of \<open>MainThread\<close> that started in state \<open>s\<close> has unwound: it
  returns 1, the three globals are null, everything acquired in its events has been
  released after, the cell that \<open>s\<close> held has been handed to \<open>VirtualFree\<close>, and
  what \<open>VirtualFree\<close> has released is no longer part of the storage.
\<close>

definition unwound :: "machine \<Rightarrow> dword \<times> machine \<Rightarrow> bool" where
  "unwound s r =
     (fst r = 1 \<and> g_r9_for_tpv_flag (snd r) = 0 \<and> g_tpvHookAddress (snd r) = 0 \<and>
      fpTPV_OriginalCode (snd r) = 0 \<and>
      (\<exists>es. trace (snd r) = trace s @ es \<and> all_released es \<and>
         (g_r9_for_tpv_flag s \<noteq> 0 \<longrightarrow> list_ex (is_free (g_r9_for_tpv_flag s)) es) \<and>
         (\<forall>p. ApiVirtualFree p True \<in> set es \<longrightarrow> storage (snd r) p = None)))"

section \<open>Properties of traces\<close>

fun is_access :: "event \<Rightarrow> bool" where
  "is_access (MemRead a) = True"
| "is_access (MemWrite a v) = True"
| "is_access e = False"

fun is_write :: "event \<Rightarrow> bool" where
  "is_write (MemWrite a v) = True"
| "is_write e = False"

fun is_call :: "event \<Rightarrow> bool" where
  "is_call (Call a vk) = True"
| "is_call e = False"

fun is_sleep :: "event \<Rightarrow> bool" where
  "is_sleep (ApiSleep ms) = True"
| "is_sleep e = False"

text \<open>
  Every load or store in the list comes after a \<open>VirtualQuery\<close> of the same address,
  in the list itself or among the addresses \<open>Q\<close> queried before it.
\<close>

fun queried_before_access :: "addr list \<Rightarrow> event list \<Rightarrow> bool" where
  "queried_before_access Q [] = True"
| "queried_before_access Q (ApiVirtualQuery a # es) = queried_before_access (a # Q) es"
| "queried_before_access Q (MemRead a # es) = (a \<in> set Q \<and> queried_before_access Q es)"
| "queried_before_access Q (MemWrite a v # es) = (a \<in> set Q \<and> queried_before_access Q es)"
| "queried_before_access Q (e # es) = queried_before_access Q es"

text \<open>
  The page of an address is unsafe when the query fails, the page is not committed, or
  its protection has none of the four writable flags.
\<close>

definition page_unsafe :: "env \<Rightarrow> addr \<Rightarrow> bool" where
  "page_unsafe env a =
     (case VirtualQuery env a of
        None \<Rightarrow> True
      | Some mem_info \<Rightarrow>
          State mem_info \<noteq> MEM_COMMIT \<or>
          (Protect mem_info AND PAGE_READWRITE = 0 \<and>
           Protect mem_info AND PAGE_WRITECOPY = 0 \<and>
           Protect mem_info AND PAGE_EXECUTE_READWRITE = 0 \<and>
           Protect mem_info AND PAGE_EXECUTE_WRITECOPY = 0))"

text \<open>The function that a \<open>Call\<close> event names.\<close>

definition action_of :: "action \<Rightarrow> env \<Rightarrow> int \<Rightarrow> machine \<Rightarrow> (abrupt + bool) \<times> machine" where
  "action_of A =
     (case A of
        SafeToggleViewState \<Rightarrow> safeToggleViewState
      | SetFirstPersonView \<Rightarrow> setFirstPersonView
      | SetThirdPersonView \<Rightarrow> setThirdPersonView)"

text \<open>
  Edge detection as the specification words it. \<open>last_seen m vk\<close> is the recorded
  last-seen state of a key (down or up; a key not recorded counts as up).
  \<open>rising_edges down m vks\<close> lists, in visiting order, the keys whose action fires:
  those sampled down whose recorded state was up when they were visited, each visit
  recording the fresh sample. \<open>record_samples\<close> is the map after the visits.
\<close>

definition last_seen :: "(int \<rightharpoonup> bool) \<Rightarrow> int \<Rightarrow> bool" where
  "last_seen m vk = (m vk = Some True)"

fun rising_edges :: "(int \<Rightarrow> bool) \<Rightarrow> (int \<rightharpoonup> bool) \<Rightarrow> int list \<Rightarrow> int list" where
  "rising_edges down m [] = []"
| "rising_edges down m (vk # vks) =
     (if down vk \<and> \<not> last_seen m vk then [vk] else []) @ rising_edges down (m(vk \<mapsto> down vk)) vks"

fun record_samples :: "(int \<Rightarrow> bool) \<Rightarrow> (int \<rightharpoonup> bool) \<Rightarrow> int list \<Rightarrow> (int \<rightharpoonup> bool)" where
  "record_samples down m [] = m"
| "record_samples down m (vk # vks) = record_samples down (m(vk \<mapsto> down vk)) vks"

text \<open>
  The cell behind a non-null \<open>g_r9_for_tpv_flag\<close> can be read: the pointer is either
  null or points to the word that \<open>MainThread\<close> allocated.
\<close>

definition storage_readable :: "machine \<Rightarrow> bool" where
  "storage_readable s = (g_r9_for_tpv_flag s \<noteq> 0 \<longrightarrow> storage s (g_r9_for_tpv_flag s) \<noteq> None)"

text \<open>
  The flag byte that the captured value designates can be loaded and stored to: it is
  mapped and not write-protected. This is a property of the game's memory, which the
  mod can only assume.
\<close>

definition flag_accessible :: "machine \<Rightarrow> bool" where
  "flag_accessible s =
     (case storage s (g_r9_for_tpv_flag s) of
        None \<Rightarrow> True
      | Some r9_value \<Rightarrow>
          mem s (r9_value + TOGGLE_FLAG_OFFSET) \<noteq> None \<and>
          \<not> write_protected s (r9_value + TOGGLE_FLAG_OFFSET))"

text \<open>Every store recorded in the list stores 0 or 1.\<close>

fun stores_0_or_1 :: "event list \<Rightarrow> bool" where
  "stores_0_or_1 [] = True"
| "stores_0_or_1 (MemWrite a v # es) = ((v = 0 \<or> v = 1) \<and> stores_0_or_1 es)"
| "stores_0_or_1 (e # es) = stores_0_or_1 es"

section \<open>Example inputs\<close>

text \<open>
  A process in which the detour has captured \<open>0x10000\<close> into the cell at \<open>0x5000\<close>,
  so that the flag byte is at \<open>0x10038\<close>; it holds 0 (first person). The operating
  system reports every page committed and \<open>PAGE_READWRITE\<close>, and no key is down.
\<close>

definition demo_machine :: machine where
  "demo_machine =
     \<lparr>g_r9_for_tpv_flag = 0x5000, fpTPV_OriginalCode = 0x7100, g_tpvHookAddress = 0x700B,
      storage = [0x5000 \<mapsto> 0x10000], mem = [0x10038 \<mapsto> 0],
      write_protected = (\<lambda>a. False), key_was_down = Map.empty, trace = []\<rparr>"

definition demo_env :: env where
  "demo_env =
     \<lparr>VirtualQuery = (\<lambda>a. Some \<lparr>State = 0x1000, Protect = 0x04\<rparr>),
      IsBadReadPtr = (\<lambda>a. False),
      GetAsyncKeyState = (\<lambda>vk. 0)\<rparr>"

text \<open>The environment of a poll cycle in which exactly the key \<open>vk\<close> is down or up.\<close>

definition key_env :: "int \<Rightarrow> bool \<Rightarrow> env" where
  "key_env vk down =
     demo_env\<lparr>GetAsyncKeyState := (\<lambda>k. if k = vk \<and> down then 0x8000 else 0)\<rparr>"

text \<open>
  Variations: the operating system reports the page \<open>PAGE_READONLY\<close>; the flag byte
  already holds 1, or holds 7 (a value the game may have left there); the flag byte
  cannot be accessed, so that reading it faults.
  In \<open>guard_page_env\<close> the key \<open>0x71\<close> is down and the operating system reports the
  page of the flag byte committed with the protection \<open>PAGE_READWRITE | PAGE_GUARD\<close>
  (\<open>0x104\<close>), as it does for a guard page: the writable flag is set, and the first
  access to the page faults.
\<close>

definition readonly_env :: env where
  "readonly_env = demo_env\<lparr>VirtualQuery := (\<lambda>a. Some \<lparr>State = 0x1000, Protect = 0x02\<rparr>)\<rparr>"

definition third_person_machine :: machine where
  "third_person_machine = demo_machine\<lparr>mem := [0x10038 \<mapsto> 1]\<rparr>"

definition odd_flag_machine :: machine where
  "odd_flag_machine = demo_machine\<lparr>mem := [0x10038 \<mapsto> 7]\<rparr>"

definition unmapped_flag_machine :: machine where
  "unmapped_flag_machine = demo_machine\<lparr>mem := Map.empty\<rparr>"

definition guard_page_env :: env where
  "guard_page_env =
     (key_env 0x71 True)\<lparr>VirtualQuery := (\<lambda>a. Some \<lparr>State = 0x1000, Protect = 0x104\<rparr>)\<rparr>"

definition demo_keys :: ToggleData where
  "demo_keys = \<lparr>toggle_keys = [0x72], fpv_keys = [0x70], tpv_keys = [0x71]\<rparr>"

text \<open>
  The process as the DLL is loaded, and an environment in which every step of the
  initialization succeeds: the cell is allocated at \<open>0x5000\<close>, the pattern is found at
  \<open>0x140001000\<close>, and the hook's continuation is \<open>0x7100\<close>. In the variation
  \<open>MH_EnableHook\<close> fails.
\<close>

definition initial_machine :: machine where
  "initial_machine =
     \<lparr>g_r9_for_tpv_flag = 0, fpTPV_OriginalCode = 0, g_tpvHookAddress = 0,
      storage = Map.empty, mem = Map.empty, write_protected = (\<lambda>a. False),
      key_was_down = Map.empty, trace = []\<rparr>"

definition demo_init_env :: init_env where
  "demo_init_env =
     \<lparr>loadConfig = \<lparr>config_toggle_keys = [0x72], config_fpv_keys = [0x70], config_tpv_keys = [0x71],
                    log_level = ''INFO'', aob_pattern = ''48 8B 8F''\<rparr>,
      VirtualAlloc = (\<lambda>t. 0x5000),
      VirtualFree = (\<lambda>t p. True),
      GetModuleHandleA = (\<lambda>t. 0x140000000),
      GetModuleInformation = (\<lambda>t. Some \<lparr>lpBaseOfDll = 0x140000000, SizeOfImage = 0x4000\<rparr>),
      parseAOB = (\<lambda>pattern. [0x48, 0x8B, 0x8F]),
      FindPattern = (\<lambda>base size pattern. 0x140001000),
      CreateThread = (\<lambda>t. True),
      MH_Initialize = (\<lambda>t. MH_OK),
      MH_CreateHook = (\<lambda>t a. (MH_OK, Some 0x7100)),
      MH_EnableHook = (\<lambda>t a. MH_OK),
      MH_DisableHook = (\<lambda>t a. MH_OK),
      MH_RemoveHook = (\<lambda>t a. MH_OK),
      MH_Uninitialize = (\<lambda>t. MH_OK)\<rparr>"

definition enable_fails_env :: init_env where
  "enable_fails_env = demo_init_env\<lparr>MH_EnableHook := (\<lambda>t a. MH_ERROR_MEMORY_PROTECT)\<rparr>"

text \<open>
  The buffer and the compiled pattern \<open>48 8B ?? 10\<close> of the end-to-end scenario in
  section 8 of the specification, with the buffer at address \<open>0x1000\<close>.
\<close>

definition memory_of :: "nat \<Rightarrow> byte list \<Rightarrow> nat \<Rightarrow> byte" where
  "memory_of base bytes a = (if base \<le> a \<and> a < base + length bytes then bytes ! (a - base) else 0)"

definition scenario_buffer :: "byte list" where
  "scenario_buffer = [0x48, 0x8B, 0x00, 0x10, 0x48, 0x8B, 0xFF, 0x10]"

definition scenario_pattern :: CompiledPattern where
  "scenario_pattern = [(0x48, False), (0x8B, False), (0x00, True), (0x10, False)]"

section \<open>Verification\<close>

subsection \<open>Basic facts about the trace\<close>

lemma emit_simps [simp]:
  "trace (emit e s) = trace s @ [e]"
  "mem (emit e s) = mem s"
  "storage (emit e s) = storage s"
  "write_protected (emit e s) = write_protected s"
  "key_was_down (emit e s) = key_was_down s"
  "g_r9_for_tpv_flag (emit e s) = g_r9_for_tpv_flag s"
  "fpTPV_OriginalCode (emit e s) = fpTPV_OriginalCode s"
  "g_tpvHookAddress (emit e s) = g_tpvHookAddress s"
  by (simp_all add: emit_def)

lemma logger_log_simps [simp]:
  "trace (logger_log l s) = trace s @ [Log l]"
  "mem (logger_log l s) = mem s"
  "storage (logger_log l s) = storage s"
  "write_protected (logger_log l s) = write_protected s"
  "key_was_down (logger_log l s) = key_was_down s"
  "g_r9_for_tpv_flag (logger_log l s) = g_r9_for_tpv_flag s"
  "fpTPV_OriginalCode (logger_log l s) = fpTPV_OriginalCode s"
  "g_tpvHookAddress (logger_log l s) = g_tpvHookAddress s"
  by (simp_all add: logger_log_def)

subsection \<open>setViewState: the captured-pointer cell is unset\<close>

text \<open>
  Claim C2. When the storage pointer is null, or the cell it points to holds 0,
  \<open>setViewState\<close> returns \<open>false\<close>, and the only thing it has done is one call of the
  logger: the target address is never formed or queried, the flag byte is neither read
  nor written, and the target memory is unchanged.
\<close>

theorem setViewState_channel_unset:
  assumes "g_r9_for_tpv_flag s = 0 \<or> storage s (g_r9_for_tpv_flag s) = Some 0"
  shows "setViewState env new_state action_desc key_pressed_vk s =
           (Inr False, logger_log (if g_r9_for_tpv_flag s = 0 then LOG_ERROR else LOG_WARNING) s)
         \<and> mem (snd (setViewState env new_state action_desc key_pressed_vk s)) = mem s
         \<and> trace (snd (setViewState env new_state action_desc key_pressed_vk s)) =
             trace s @ [Log (if g_r9_for_tpv_flag s = 0 then LOG_ERROR else LOG_WARNING)]"
  using assms by (auto simp: setViewState_def)

theorem setViewState_channel_unset_witness:
  "storage (demo_machine\<lparr>storage := [0x5000 \<mapsto> 0]\<rparr>)
      (g_r9_for_tpv_flag (demo_machine\<lparr>storage := [0x5000 \<mapsto> 0]\<rparr>)) = Some 0
   \<and> fst (setViewState demo_env 1 ''Set TPV'' 0x72 (demo_machine\<lparr>storage := [0x5000 \<mapsto> 0]\<rparr>)) = Inr False
   \<and> trace (snd (setViewState demo_env 1 ''Set TPV'' 0x72 (demo_machine\<lparr>storage := [0x5000 \<mapsto> 0]\<rparr>))) =
        [Log LOG_WARNING]"
  using setViewState_channel_unset
          [of "demo_machine\<lparr>storage := [0x5000 \<mapsto> 0]\<rparr>" demo_env 1 "''Set TPV''" "0x72"]
  by (simp add: demo_machine_def)

subsection \<open>setViewState\<close>

lemma is_writable_iff:
  "is_writable mi \<longleftrightarrow>
     \<not> (Protect mi AND PAGE_READWRITE = 0 \<and> Protect mi AND PAGE_WRITECOPY = 0 \<and>
        Protect mi AND PAGE_EXECUTE_READWRITE = 0 \<and> Protect mi AND PAGE_EXECUTE_WRITECOPY = 0)"
  unfolding is_writable_def
  by (simp add: bit.conj_disj_distrib or_eq_0_iff)

lemma page_unsafe_iff:
  "page_unsafe env a \<longleftrightarrow>
     (case VirtualQuery env a of None \<Rightarrow> True
      | Some mi \<Rightarrow> State mi \<noteq> MEM_COMMIT \<or> \<not> is_writable mi)"
  by (auto simp: page_unsafe_def is_writable_iff split: option.splits)

lemmas setViewState_unfold =
  setViewState_def setViewState_try_def read_byte_def write_byte_def Let_def

lemma setViewState_frame:
  "g_r9_for_tpv_flag (snd (setViewState env v d k s)) = g_r9_for_tpv_flag s"
  "storage (snd (setViewState env v d k s)) = storage s"
  "write_protected (snd (setViewState env v d k s)) = write_protected s"
  "key_was_down (snd (setViewState env v d k s)) = key_was_down s"
  "fpTPV_OriginalCode (snd (setViewState env v d k s)) = fpTPV_OriginalCode s"
  "g_tpvHookAddress (snd (setViewState env v d k s)) = g_tpvHookAddress s"
  by (auto simp: setViewState_unfold split: option.splits)

lemma setViewState_mapped:
  "(mem (snd (setViewState env v d k s)) x = None) = (mem s x = None)"
  by (auto simp: setViewState_unfold split: option.splits)

lemma setViewState_page_ok:
  assumes "g_r9_for_tpv_flag s \<noteq> 0"
    and "storage s (g_r9_for_tpv_flag s) = Some r9"
    and "r9 \<noteq> 0"
    and "\<not> page_unsafe env (r9 + TOGGLE_FLAG_OFFSET)"
  shows "setViewState env v d k s =
          (case setViewState_try v (r9 + TOGGLE_FLAG_OFFSET)
                  (logger_log LOG_DEBUG (emit (ApiVirtualQuery (r9 + TOGGLE_FLAG_OFFSET))
                     (logger_log LOG_DEBUG (logger_log LOG_DEBUG s)))) of
             (Inl (runtime_error what), s4) \<Rightarrow> (Inr False, logger_log LOG_ERROR s4)
           | (Inl (AccessViolation a), s4) \<Rightarrow> (Inl (AccessViolation a), s4)
           | (Inr r, s4) \<Rightarrow> (Inr r, s4))"
  using assms
  by (auto simp: setViewState_def Let_def page_unsafe_iff split: option.splits)

lemma setViewState_ok:
  assumes "g_r9_for_tpv_flag s \<noteq> 0"
    and "storage s (g_r9_for_tpv_flag s) = Some r9"
    and "r9 \<noteq> 0"
    and "a = r9 + TOGGLE_FLAG_OFFSET"
    and "\<not> page_unsafe env a"
    and "mem s a = Some cur"
    and "\<not> write_protected s a"
  shows "fst (setViewState env v d k s) = Inr True"
    and "trace (snd (setViewState env v d k s)) =
           trace s @ [Log LOG_DEBUG, Log LOG_DEBUG, ApiVirtualQuery a, Log LOG_DEBUG, MemRead a, Log LOG_DEBUG] @
             (if cur = v then [Log LOG_DEBUG] else [MemWrite a v, Log LOG_INFO, Log LOG_DEBUG])"
    and "mem (snd (setViewState env v d k s)) = (if cur = v then mem s else (mem s)(a \<mapsto> v))"
  using assms
  by (auto simp: setViewState_page_ok setViewState_try_def read_byte_def write_byte_def Let_def)

text \<open>
  A fault of the load or of the store of step 6 is not turned into \<open>false\<close>: the
  function does not return, and nothing is logged after the faulting access.
\<close>

lemma setViewState_fault:
  assumes "g_r9_for_tpv_flag s \<noteq> 0"
    and "storage s (g_r9_for_tpv_flag s) = Some r9"
    and "r9 \<noteq> 0"
    and "a = r9 + TOGGLE_FLAG_OFFSET"
    and "\<not> page_unsafe env a"
    and "mem s a = None \<or> (mem s a \<noteq> Some v \<and> write_protected s a)"
  shows "fst (setViewState env v d k s) = Inl (AccessViolation a)"
    and "mem (snd (setViewState env v d k s)) = mem s"
    and "trace (snd (setViewState env v d k s)) =
           trace s @ [Log LOG_DEBUG, Log LOG_DEBUG, ApiVirtualQuery a, Log LOG_DEBUG, MemRead a] @
             (if mem s a = None then [] else [Log LOG_DEBUG, MemWrite a v])"
  using assms
  by (auto simp: setViewState_page_ok setViewState_try_def read_byte_def write_byte_def Let_def
           split: option.splits)

text \<open>No C++ exception leaves \<open>setViewState\<close>; what ends it abruptly is a fault.\<close>

lemma setViewState_abrupt:
  "fst (setViewState env v d k s) = Inl x \<Longrightarrow> \<exists>a. x = AccessViolation a"
  by (auto simp: setViewState_unfold split: option.splits if_splits)

subsection \<open>The three view actions\<close>

lemma stores_0_or_1_append [simp]:
  "stores_0_or_1 (xs @ ys) = (stores_0_or_1 xs \<and> stores_0_or_1 ys)"
  by (induction xs rule: stores_0_or_1.induct) auto

lemma setViewState_events:
  "\<exists>es. trace (snd (setViewState env v d k s)) = trace s @ es \<and>
        filter is_call es = [] \<and> filter is_sleep es = [] \<and>
        (v = 0 \<or> v = 1 \<longrightarrow> stores_0_or_1 es)"
  by (auto simp: setViewState_unfold split: option.splits)

lemma storage_readable_simps [simp]:
  "storage_readable (emit e s) = storage_readable s"
  "storage_readable (logger_log l s) = storage_readable s"
  "storage_readable (s\<lparr>key_was_down := m\<rparr>) = storage_readable s"
  by (simp_all add: storage_readable_def)

lemma flag_accessible_simps [simp]:
  "flag_accessible (emit e s) = flag_accessible s"
  "flag_accessible (logger_log l s) = flag_accessible s"
  "flag_accessible (s\<lparr>key_was_down := m\<rparr>) = flag_accessible s"
  by (simp_all add: flag_accessible_def split: option.splits)

lemma setViewState_returns:
  "storage_readable s \<Longrightarrow> flag_accessible s \<Longrightarrow> \<exists>b. fst (setViewState env v d k s) = Inr b"
  by (auto simp: storage_readable_def flag_accessible_def setViewState_unfold split: option.splits)

lemma setViewState_storage_readable [simp]:
  "storage_readable (snd (setViewState env v d k s)) = storage_readable s"
  by (simp add: storage_readable_def setViewState_frame)

lemma setViewState_flag_accessible [simp]:
  "flag_accessible (snd (setViewState env v d k s)) = flag_accessible s"
  by (simp add: flag_accessible_def setViewState_frame setViewState_mapped split: option.splits)

lemma safeToggle_cases:
  "safeToggleViewState env k s =
     (let s0 = emit (Call SafeToggleViewState k) s in
      if g_r9_for_tpv_flag s = 0 then (Inr False, logger_log LOG_WARNING s0)
      else case storage s (g_r9_for_tpv_flag s) of
        None \<Rightarrow> (Inl (AccessViolation (g_r9_for_tpv_flag s)), s0)
      | Some r9 \<Rightarrow>
         if r9 = 0 then (Inr False, logger_log LOG_WARNING s0)
         else let a = r9 + TOGGLE_FLAG_OFFSET; s1 = emit (ApiIsBadReadPtr a) s0 in
           if IsBadReadPtr env a then (Inr False, logger_log LOG_ERROR s1)
           else case mem s a of
             None \<Rightarrow> (Inl (AccessViolation a), emit (MemRead a) s1)
           | Some cur \<Rightarrow> setViewState env (if cur = 0 then 1 else 0) ''Toggle'' k
                 (logger_log LOG_DEBUG (logger_log LOG_DEBUG (emit (MemRead a) s1))))"
  by (simp add: safeToggleViewState_def safeToggleViewState_try_def read_byte_def Let_def
           split: option.splits)

lemma action_events:
  "\<exists>es. trace (snd (action_of A env k s)) = trace s @ Call A k # es \<and>
        filter is_call es = [] \<and> filter is_sleep es = [] \<and> stores_0_or_1 es"
proof (cases A)
  case SafeToggleViewState
  have *: "\<And>v s'. v = 0 \<or> v = 1 \<Longrightarrow> \<exists>es. trace (snd (setViewState env v ''Toggle'' k s')) = trace s' @ es \<and>
        filter is_call es = [] \<and> filter is_sleep es = [] \<and> stores_0_or_1 es"
    using setViewState_events by blast
  show ?thesis
    unfolding action_of_def SafeToggleViewState action.case safeToggle_cases Let_def
    apply (simp split: option.splits)
    apply (intro conjI impI allI)
    subgoal for r9 cur
      using * [of 1 "logger_log LOG_DEBUG (logger_log LOG_DEBUG (emit (MemRead (r9 + TOGGLE_FLAG_OFFSET))
          (emit (ApiIsBadReadPtr (r9 + TOGGLE_FLAG_OFFSET)) (emit (Call SafeToggleViewState k) s))))"]
      by auto
    subgoal for r9 cur
      using * [of 0 "logger_log LOG_DEBUG (logger_log LOG_DEBUG (emit (MemRead (r9 + TOGGLE_FLAG_OFFSET))
          (emit (ApiIsBadReadPtr (r9 + TOGGLE_FLAG_OFFSET)) (emit (Call SafeToggleViewState k) s))))"]
      by auto
    done
next
  case SetFirstPersonView
  then show ?thesis
    using setViewState_events [of env 0 "''Set FPV''" k "emit (Call SetFirstPersonView k) s"]
    by (auto simp: action_of_def setFirstPersonView_def)
next
  case SetThirdPersonView
  then show ?thesis
    using setViewState_events [of env 1 "''Set TPV''" k "emit (Call SetThirdPersonView k) s"]
    by (auto simp: action_of_def setThirdPersonView_def)
qed

lemma action_frame:
  "g_r9_for_tpv_flag (snd (action_of A env k s)) = g_r9_for_tpv_flag s"
  "storage (snd (action_of A env k s)) = storage s"
  "key_was_down (snd (action_of A env k s)) = key_was_down s"
  "write_protected (snd (action_of A env k s)) = write_protected s"
  by (cases A; simp add: action_of_def safeToggle_cases setFirstPersonView_def setThirdPersonView_def
        setViewState_frame Let_def split: option.splits)+

lemma action_mapped:
  "(mem (snd (action_of A env k s)) x = None) = (mem s x = None)"
  by (cases A; simp add: action_of_def safeToggle_cases setFirstPersonView_def setThirdPersonView_def
        setViewState_mapped Let_def split: option.splits)

lemma action_storage_readable [simp]:
  "storage_readable (snd (action_of A env k s)) = storage_readable s"
  by (simp add: storage_readable_def action_frame)

lemma action_flag_accessible [simp]:
  "flag_accessible (snd (action_of A env k s)) = flag_accessible s"
  by (simp add: flag_accessible_def action_frame action_mapped split: option.splits)

text \<open>
  With the mod's cell readable and the flag byte accessible, no access of an action
  faults, and the action returns.
\<close>

lemma action_returns:
  assumes "storage_readable s" and "flag_accessible s"
  shows "\<exists>b. fst (action_of A env k s) = Inr b"
proof (cases A)
  case SafeToggleViewState
  show ?thesis
  proof (cases "g_r9_for_tpv_flag s = 0")
    case True
    then show ?thesis by (auto simp: SafeToggleViewState action_of_def safeToggle_cases Let_def)
  next
    case False
    then obtain r9 where r9: "storage s (g_r9_for_tpv_flag s) = Some r9"
      using assms(1) by (auto simp: storage_readable_def)
    then obtain cur where cur: "mem s (r9 + TOGGLE_FLAG_OFFSET) = Some cur"
      using assms(2) by (auto simp: flag_accessible_def)
    show ?thesis
      using False r9 cur assms
      by (auto simp: SafeToggleViewState action_of_def safeToggle_cases Let_def
               intro!: setViewState_returns)
  qed
next
  case SetFirstPersonView
  then show ?thesis
    using assms by (auto simp: action_of_def setFirstPersonView_def intro!: setViewState_returns)
next
  case SetThirdPersonView
  then show ?thesis
    using assms by (auto simp: action_of_def setThirdPersonView_def intro!: setViewState_returns)
qed

text \<open>No C++ exception leaves an action; what ends it abruptly is a fault.\<close>

lemma action_abrupt:
  "fst (action_of A env k s) = Inl x \<Longrightarrow> \<exists>a. x = AccessViolation a"
  by (cases A)
     (auto simp: action_of_def safeToggle_cases setFirstPersonView_def setThirdPersonView_def Let_def
           dest: setViewState_abrupt split: option.splits if_splits)

subsection \<open>The key loops\<close>

lemma action_of_simps:
  "safeToggleViewState = action_of SafeToggleViewState"
  "setFirstPersonView = action_of SetFirstPersonView"
  "setThirdPersonView = action_of SetThirdPersonView"
  by (simp_all add: action_of_def)

lemma for_keys_events:
  "\<exists>es. trace (snd (for_keys (action_of A) env vks action s)) = trace s @ es \<and>
        filter is_sleep es = [] \<and> stores_0_or_1 es"
proof (induction vks arbitrary: action s)
  case Nil
  show ?case by simp
next
  case (Cons vk vks)
  show ?case
  proof (cases "key_down env vk \<and> \<not> fst (key_was_down_at vk s)")
    case False
    then show ?thesis
      using Cons.IH [of action "s\<lparr>key_was_down := (key_was_down s)(vk \<mapsto> key_down env vk)\<rparr>"]
        Cons.IH [of action "(snd (key_was_down_at vk s))\<lparr>key_was_down := (key_was_down (snd (key_was_down_at vk s)))(vk \<mapsto> key_down env vk)\<rparr>"]
      by (auto simp: Let_def key_was_down_at_def split: prod.splits option.splits)
  next
    case True
    let ?s1 = "logger_log LOG_DEBUG (snd (key_was_down_at vk s))"
    have t1: "trace ?s1 = trace s @ [Log LOG_DEBUG]"
      by (simp add: key_was_down_at_def split: option.splits)
    obtain es where es: "trace (snd (action_of A env vk ?s1)) = trace ?s1 @ Call A vk # es"
      "filter is_sleep es = []" "stores_0_or_1 es"
      using action_events by blast
    show ?thesis
    proof (cases "action_of A env vk ?s1")
      case (Pair r s2)
      show ?thesis
      proof (cases r)
        case (Inl e)
        with True Pair es t1 show ?thesis
          by (auto simp: Let_def split: prod.splits)
      next
        case (Inr b)
        obtain es' where es': "trace (snd (for_keys (action_of A) env vks True
             (s2\<lparr>key_was_down := (key_was_down s2)(vk \<mapsto> key_down env vk)\<rparr>))) =
            trace (s2\<lparr>key_was_down := (key_was_down s2)(vk \<mapsto> key_down env vk)\<rparr>) @ es'"
          "filter is_sleep es' = []" "stores_0_or_1 es'"
          using Cons.IH by blast
        with True Pair Inr es t1 show ?thesis
          by (auto simp: Let_def split: prod.splits)
      qed
    qed
  qed
qed

lemma last_seen_at: "fst (key_was_down_at vk s) = last_seen (key_was_down s) vk"
  by (auto simp: key_was_down_at_def last_seen_def split: option.splits)

text \<open>
  One key loop, whichever way it ends. When it ends abruptly, it is by a fault, the
  mod's cell was not readable or the flag byte not accessible, and the actions called
  up to the fault are the first of those of the rising edges. When it completes, the
  actions called are those of the rising edges, in visiting order, and the fresh
  samples have been recorded.
\<close>

lemma for_keys_run:
  "\<exists>r s'. for_keys (action_of A) env vks action s = (r, s') \<and>
     (case r of
        Inl x \<Rightarrow>
          (\<exists>a. x = AccessViolation a) \<and> \<not> (storage_readable s \<and> flag_accessible s) \<and>
          (\<exists>n. filter is_call (trace s') =
             filter is_call (trace s) @
             map (Call A) (take n (rising_edges (key_down env) (key_was_down s) vks)))
      | Inr b \<Rightarrow>
          b = (action \<or> rising_edges (key_down env) (key_was_down s) vks \<noteq> []) \<and>
          key_was_down s' = record_samples (key_down env) (key_was_down s) vks \<and>
          filter is_call (trace s') =
            filter is_call (trace s) @ map (Call A) (rising_edges (key_down env) (key_was_down s) vks) \<and>
          storage_readable s' = storage_readable s \<and>
          flag_accessible s' = flag_accessible s)"
proof (induction vks arbitrary: action s)
  case Nil
  show ?case by simp
next
  case (Cons vk vks)
  define m' where "m' = (key_was_down s)(vk \<mapsto> key_down env vk)"
  show ?case
  proof (cases "key_down env vk \<and> \<not> last_seen (key_was_down s) vk")
    case False
    define s1 where "s1 = s\<lparr>key_was_down := m'\<rparr>"
    have step: "for_keys (action_of A) env (vk # vks) action s = for_keys (action_of A) env vks action s1"
      using False
      by (auto simp: Let_def key_was_down_at_def last_seen_def s1_def m'_def split: prod.splits option.splits)
    have r1: "storage_readable s1 = storage_readable s" "flag_accessible s1 = flag_accessible s"
      by (simp_all add: s1_def)
    have k1: "key_was_down s1 = m'" and t1: "trace s1 = trace s" by (simp_all add: s1_def)
    have e: "rising_edges (key_down env) (key_was_down s) (vk # vks) = rising_edges (key_down env) m' vks"
      and rs: "record_samples (key_down env) (key_was_down s) (vk # vks) = record_samples (key_down env) m' vks"
      using False by (auto simp: m'_def)
    from Cons.IH [of action s1] show ?thesis
      unfolding step e rs k1 t1 r1 .
  next
    case True
    obtain s0 where kw: "key_was_down_at vk s = (False, s0)"
      using True last_seen_at [of vk s] by (cases "key_was_down_at vk s") simp
    have s0: "trace s0 = trace s" "storage_readable s0 = storage_readable s"
      "flag_accessible s0 = flag_accessible s"
      "(key_was_down s0)(vk \<mapsto> key_down env vk) = m'"
      using kw
      by (auto simp: key_was_down_at_def storage_readable_def flag_accessible_def m'_def
               split: option.splits)
    define s1 where "s1 = logger_log LOG_DEBUG s0"
    have r1: "storage_readable s1 = storage_readable s" "flag_accessible s1 = flag_accessible s"
      using s0 by (simp_all add: s1_def)
    obtain r s2 where act: "action_of A env vk s1 = (r, s2)"
      by (cases "action_of A env vk s1")
    have s2: "s2 = snd (action_of A env vk s1)"
      using act by simp
    obtain es where es: "trace s2 = trace s1 @ Call A vk # es" "filter is_call es = []"
      using action_events [of A env vk s1] by (auto simp: s2)
    have c2: "filter is_call (trace s2) = filter is_call (trace s) @ [Call A vk]"
      using es s0(1) by (simp add: s1_def)
    have e: "rising_edges (key_down env) (key_was_down s) (vk # vks) = vk # rising_edges (key_down env) m' vks"
      and rs: "record_samples (key_down env) (key_was_down s) (vk # vks) = record_samples (key_down env) m' vks"
      using True by (auto simp: m'_def)
    show ?thesis
    proof (cases r)
      case (Inl x)
      have step: "for_keys (action_of A) env (vk # vks) action s = (Inl x, s2)"
        using True act Inl by (simp add: Let_def kw s1_def)
      have "\<exists>a. x = AccessViolation a"
        using action_abrupt [of A env vk s1 x] act Inl by simp
      moreover have "\<not> (storage_readable s \<and> flag_accessible s)"
        using action_returns [of s1 A env vk] act Inl r1 by auto
      moreover have "\<exists>n. filter is_call (trace s2) =
             filter is_call (trace s) @
             map (Call A) (take n (vk # rising_edges (key_down env) m' vks))"
        using c2 by (intro exI [of _ 1]) simp
      ultimately show ?thesis
        unfolding step e by simp
    next
      case (Inr b)
      define s3 where "s3 = s2\<lparr>key_was_down := (key_was_down s2)(vk \<mapsto> key_down env vk)\<rparr>"
      have step: "for_keys (action_of A) env (vk # vks) action s = for_keys (action_of A) env vks True s3"
        using True act Inr by (simp add: Let_def kw s3_def s1_def)
      have r3: "storage_readable s3 = storage_readable s" "flag_accessible s3 = flag_accessible s"
        using r1 by (simp_all add: s3_def s2)
      have k3: "key_was_down s3 = m'"
        using s0(4) by (simp add: s3_def s2 s1_def action_frame)
      have c3: "filter is_call (trace s3) = filter is_call (trace s) @ [Call A vk]"
        using c2 by (simp add: s3_def)
      obtain r' s' where rest: "for_keys (action_of A) env vks True s3 = (r', s')"
        and ih: "(case r' of
            Inl x \<Rightarrow>
              (\<exists>a. x = AccessViolation a) \<and> \<not> (storage_readable s \<and> flag_accessible s) \<and>
              (\<exists>n. filter is_call (trace s') =
                 (filter is_call (trace s) @ [Call A vk]) @
                 map (Call A) (take n (rising_edges (key_down env) m' vks)))
          | Inr b \<Rightarrow>
              b = (True \<or> rising_edges (key_down env) m' vks \<noteq> []) \<and>
              key_was_down s' = record_samples (key_down env) m' vks \<and>
              filter is_call (trace s') =
                (filter is_call (trace s) @ [Call A vk]) @ map (Call A) (rising_edges (key_down env) m' vks) \<and>
              storage_readable s' = storage_readable s \<and>
              flag_accessible s' = flag_accessible s)"
        using Cons.IH [of True s3] unfolding k3 c3 r3 by blast
      show ?thesis
      proof (cases r')
        case i: (Inl x)
        then obtain n where n: "filter is_call (trace s') =
                 (filter is_call (trace s) @ [Call A vk]) @
                 map (Call A) (take n (rising_edges (key_down env) m' vks))"
          using ih by auto
        have "\<exists>n. filter is_call (trace s') =
             filter is_call (trace s) @
             map (Call A) (take n (vk # rising_edges (key_down env) m' vks))"
          using n by (intro exI [of _ "Suc n"]) simp
        with ih i show ?thesis
          unfolding step e rest by simp
      next
        case (Inr b')
        with ih show ?thesis
          unfolding step e rs rest by simp
      qed
    qed
  qed
qed

lemma for_keys_edges:
  assumes "for_keys (action_of A) env vks action s = (Inr b, s')"
  shows "b = (action \<or> rising_edges (key_down env) (key_was_down s) vks \<noteq> [])"
    and "key_was_down s' = record_samples (key_down env) (key_was_down s) vks"
    and "filter is_call (trace s') =
           filter is_call (trace s) @ map (Call A) (rising_edges (key_down env) (key_was_down s) vks)"
    and "storage_readable s' = storage_readable s"
    and "flag_accessible s' = flag_accessible s"
  using for_keys_run [of A env vks action s] assms by auto

lemma for_keys_abrupt:
  assumes "for_keys (action_of A) env vks action s = (Inl x, s')"
  shows "\<exists>a. x = AccessViolation a" and "\<not> (storage_readable s \<and> flag_accessible s)"
    and "\<exists>n. filter is_call (trace s') =
             filter is_call (trace s) @
             map (Call A) (take n (rising_edges (key_down env) (key_was_down s) vks))"
  using for_keys_run [of A env vks action s] assms by auto

subsection \<open>Poll cycles\<close>

lemma record_samples_notin: "vk \<notin> set vks \<Longrightarrow> record_samples down m vks vk = m vk"
  by (induction vks arbitrary: m) auto

lemma record_samples_in: "vk \<in> set vks \<Longrightarrow> record_samples down m vks vk = Some (down vk)"
proof (induction vks arbitrary: m)
  case Nil
  then show ?case by simp
next
  case (Cons k vks)
  then show ?case
    by (cases "vk \<in> set vks") (auto simp: record_samples_notin)
qed

lemma rising_edges_distinct:
  "distinct vks \<Longrightarrow>
     rising_edges down m vks = filter (\<lambda>vk. down vk \<and> \<not> last_seen m vk) vks"
proof (induction vks arbitrary: m)
  case Nil
  show ?case by simp
next
  case (Cons vk vks)
  have "filter (\<lambda>k. down k \<and> \<not> last_seen (m(vk \<mapsto> down vk)) k) vks =
        filter (\<lambda>k. down k \<and> \<not> last_seen m k) vks"
    using Cons.prems by (intro filter_cong) (auto simp: last_seen_def)
  with Cons show ?case by simp
qed

lemma last_seen_record_samples:
  "vk \<notin> set vks \<Longrightarrow> last_seen (record_samples down m vks) vk = last_seen m vk"
  by (simp add: last_seen_def record_samples_notin)

lemma take_append_prefix: "\<exists>k. xs @ take n ys = take k (xs @ ys @ zs)"
  by (rule exI [of _ "length xs + min n (length ys)"]) (simp add: min_def)

text \<open>
  The body of the \<open>try\<close> block, whichever way it ends: by a fault, after the first
  few of the calls of the cycle's rising edges, or with all of them made and every
  sample recorded.
\<close>

lemma poll_try_run:
  "\<exists>r t. poll_try env keys s = (r, t) \<and>
     (case r of
        Inl x \<Rightarrow>
          (\<exists>a. x = AccessViolation a) \<and> \<not> (storage_readable s \<and> flag_accessible s) \<and>
          (\<exists>n. filter is_call (trace t) =
             filter is_call (trace s) @
             take n
              (map (Call SafeToggleViewState)
                 (rising_edges (key_down env) (key_was_down s) (toggle_keys keys)) @
               map (Call SetFirstPersonView)
                 (rising_edges (key_down env)
                    (record_samples (key_down env) (key_was_down s) (toggle_keys keys)) (fpv_keys keys)) @
               map (Call SetThirdPersonView)
                 (rising_edges (key_down env)
                    (record_samples (key_down env)
                       (record_samples (key_down env) (key_was_down s) (toggle_keys keys)) (fpv_keys keys))
                    (tpv_keys keys))))
      | Inr u \<Rightarrow>
          key_was_down t =
             record_samples (key_down env)
               (record_samples (key_down env)
                  (record_samples (key_down env) (key_was_down s) (toggle_keys keys)) (fpv_keys keys))
               (tpv_keys keys) \<and>
          filter is_call (trace t) =
             filter is_call (trace s) @
             map (Call SafeToggleViewState)
               (rising_edges (key_down env) (key_was_down s) (toggle_keys keys)) @
             map (Call SetFirstPersonView)
               (rising_edges (key_down env)
                  (record_samples (key_down env) (key_was_down s) (toggle_keys keys)) (fpv_keys keys)) @
             map (Call SetThirdPersonView)
               (rising_edges (key_down env)
                  (record_samples (key_down env)
                     (record_samples (key_down env) (key_was_down s) (toggle_keys keys)) (fpv_keys keys))
                  (tpv_keys keys)) \<and>
          storage_readable t = storage_readable s \<and>
          flag_accessible t = flag_accessible s)"
proof -
  define m1 where "m1 = record_samples (key_down env) (key_was_down s) (toggle_keys keys)"
  define m2 where "m2 = record_samples (key_down env) m1 (fpv_keys keys)"
  define L1 where "L1 = map (Call SafeToggleViewState)
                 (rising_edges (key_down env) (key_was_down s) (toggle_keys keys))"
  define L2 where "L2 = map (Call SetFirstPersonView) (rising_edges (key_down env) m1 (fpv_keys keys))"
  define L3 where "L3 = map (Call SetThirdPersonView) (rising_edges (key_down env) m2 (tpv_keys keys))"
  have goal: "\<exists>r t. poll_try env keys s = (r, t) \<and>
     (case r of
        Inl x \<Rightarrow>
          (\<exists>a. x = AccessViolation a) \<and> \<not> (storage_readable s \<and> flag_accessible s) \<and>
          (\<exists>n. filter is_call (trace t) = filter is_call (trace s) @ take n (L1 @ L2 @ L3))
      | Inr u \<Rightarrow>
          key_was_down t = record_samples (key_down env) m2 (tpv_keys keys) \<and>
          filter is_call (trace t) = filter is_call (trace s) @ L1 @ L2 @ L3 \<and>
          storage_readable t = storage_readable s \<and>
          flag_accessible t = flag_accessible s)"
  proof -
    obtain r1 s1 where p1: "for_keys (action_of SafeToggleViewState) env (toggle_keys keys) False s = (r1, s1)"
      by (cases "for_keys (action_of SafeToggleViewState) env (toggle_keys keys) False s")
    show ?thesis
    proof (cases r1)
      case (Inl x)
      have run: "poll_try env keys s = (Inl x, s1)"
        using p1 Inl by (simp add: poll_try_def action_of_simps)
      note a1 = for_keys_abrupt [OF p1 [unfolded Inl]]
      obtain n where "filter is_call (trace s1) = filter is_call (trace s) @ ([] @ take n L1)"
        using a1(3) by (auto simp: L1_def take_map)
      moreover obtain k where "[] @ take n L1 = take k ([] @ L1 @ (L2 @ L3))"
        using take_append_prefix by blast
      ultimately have "\<exists>n. filter is_call (trace s1) = filter is_call (trace s) @ take n (L1 @ L2 @ L3)"
        by auto
      with a1(1,2) show ?thesis unfolding run by simp
    next
      case i1: (Inr a1)
      note e1 = for_keys_edges [OF p1 [unfolded i1], folded m1_def L1_def]
      obtain r2 s2 where p2: "for_keys (action_of SetFirstPersonView) env (fpv_keys keys) a1 s1 = (r2, s2)"
        by (cases "for_keys (action_of SetFirstPersonView) env (fpv_keys keys) a1 s1")
      show ?thesis
      proof (cases r2)
        case (Inl x)
        have run: "poll_try env keys s = (Inl x, s2)"
          using p1 i1 p2 Inl by (simp add: poll_try_def action_of_simps)
        note a2 = for_keys_abrupt [OF p2 [unfolded Inl], unfolded e1(2)]
        obtain n where "filter is_call (trace s2) = filter is_call (trace s) @ (L1 @ take n L2)"
          using a2(3) e1(3) by (auto simp: L2_def take_map)
        moreover obtain k where "L1 @ take n L2 = take k (L1 @ L2 @ L3)"
          using take_append_prefix by blast
        ultimately have "\<exists>n. filter is_call (trace s2) = filter is_call (trace s) @ take n (L1 @ L2 @ L3)"
          by auto
        with a2(1,2) e1(4,5) show ?thesis unfolding run by simp
      next
        case i2: (Inr a2)
        note e2 = for_keys_edges [OF p2 [unfolded i2], unfolded e1(2), folded m2_def L2_def]
        obtain r3 s3 where p3: "for_keys (action_of SetThirdPersonView) env (tpv_keys keys) a2 s2 = (r3, s3)"
          by (cases "for_keys (action_of SetThirdPersonView) env (tpv_keys keys) a2 s2")
        show ?thesis
        proof (cases r3)
          case (Inl x)
          have run: "poll_try env keys s = (Inl x, s3)"
            using p1 i1 p2 i2 p3 Inl by (simp add: poll_try_def action_of_simps)
          note a3 = for_keys_abrupt [OF p3 [unfolded Inl], unfolded e2(2)]
          obtain n where "filter is_call (trace s3) = filter is_call (trace s) @ ((L1 @ L2) @ take n L3)"
            using a3(3) e1(3) e2(3) by (auto simp: L3_def take_map)
          moreover obtain k where "(L1 @ L2) @ take n L3 = take k ((L1 @ L2) @ L3 @ [])"
            using take_append_prefix by blast
          ultimately have "\<exists>n. filter is_call (trace s3) = filter is_call (trace s) @ take n (L1 @ L2 @ L3)"
            by auto
          with a3(1,2) e1(4,5) e2(4,5) show ?thesis unfolding run by simp
        next
          case i3: (Inr a3)
          note e3 = for_keys_edges [OF p3 [unfolded i3], unfolded e2(2), folded L3_def]
          have run: "poll_try env keys s = (Inr (), emit (ApiSleep (if a3 then 15 else 50)) s3)"
            using p1 i1 p2 i2 p3 i3 by (simp add: poll_try_def action_of_simps)
          show ?thesis
            unfolding run using e1(3-5) e2(3-5) e3(2-5) by simp
        qed
      qed
    qed
  qed
  then show ?thesis
    unfolding L1_def L2_def L3_def m2_def m1_def .
qed

text \<open>
  The body of the \<open>try\<close> block throws no C++ exception, so an iteration of the
  loop is that body: it ends with the adaptive sleep, or the process ends in it.
\<close>

lemma poll_try_abrupt:
  assumes "poll_try env keys s = (Inl x, t)"
  shows "\<exists>a. x = AccessViolation a" and "\<not> (storage_readable s \<and> flag_accessible s)"
    and "\<exists>n. filter is_call (trace t) =
             filter is_call (trace s) @
             take n
              (map (Call SafeToggleViewState)
                 (rising_edges (key_down env) (key_was_down s) (toggle_keys keys)) @
               map (Call SetFirstPersonView)
                 (rising_edges (key_down env)
                    (record_samples (key_down env) (key_was_down s) (toggle_keys keys)) (fpv_keys keys)) @
               map (Call SetThirdPersonView)
                 (rising_edges (key_down env)
                    (record_samples (key_down env)
                       (record_samples (key_down env) (key_was_down s) (toggle_keys keys)) (fpv_keys keys))
                    (tpv_keys keys)))"
  using poll_try_run [of env keys s] assms by auto

lemma poll_cycle_eq: "poll_cycle env keys s = poll_try env keys s"
proof (cases "poll_try env keys s")
  case (Pair r t)
  show ?thesis
  proof (cases r)
    case (Inl x)
    then obtain a where "x = AccessViolation a"
      using poll_try_abrupt(1) Pair by blast
    with Pair Inl show ?thesis by (simp add: poll_cycle_def)
  next
    case (Inr u)
    with Pair show ?thesis by (simp add: poll_cycle_def)
  qed
qed

lemma poll_try_edges:
  assumes "poll_try env keys s = (Inr u, t)"
  shows "key_was_down t =
             record_samples (key_down env)
               (record_samples (key_down env)
                  (record_samples (key_down env) (key_was_down s) (toggle_keys keys)) (fpv_keys keys))
               (tpv_keys keys)"
    and "filter is_call (trace t) =
             filter is_call (trace s) @
             map (Call SafeToggleViewState)
               (rising_edges (key_down env) (key_was_down s) (toggle_keys keys)) @
             map (Call SetFirstPersonView)
               (rising_edges (key_down env)
                  (record_samples (key_down env) (key_was_down s) (toggle_keys keys)) (fpv_keys keys)) @
             map (Call SetThirdPersonView)
               (rising_edges (key_down env)
                  (record_samples (key_down env)
                     (record_samples (key_down env) (key_was_down s) (toggle_keys keys)) (fpv_keys keys))
                  (tpv_keys keys))"
    and "storage_readable t = storage_readable s"
    and "flag_accessible t = flag_accessible s"
  using poll_try_run [of env keys s] assms by auto

lemma poll_try_returns:
  assumes "storage_readable s" and "flag_accessible s"
  shows "\<exists>t. poll_try env keys s = (Inr (), t)"
proof (cases "poll_try env keys s")
  case (Pair r t)
  show ?thesis
  proof (cases r)
    case (Inl x)
    with Pair poll_try_abrupt(2) assms show ?thesis by blast
  next
    case (Inr u)
    with Pair show ?thesis by simp
  qed
qed

lemma poll_try_events:
  "\<exists>es. trace (snd (poll_try env keys s)) = trace s @ es \<and> stores_0_or_1 es \<and>
     (case fst (poll_try env keys s) of
        Inl e \<Rightarrow> filter is_sleep es = []
      | Inr u \<Rightarrow> \<exists>es' ms. es = es' @ [ApiSleep ms] \<and> filter is_sleep es' = [] \<and> (ms = 15 \<or> ms = 50))"
proof -
  obtain es1 where 1: "trace (snd (for_keys (action_of SafeToggleViewState) env (toggle_keys keys) False s)) = trace s @ es1"
     "filter is_sleep es1 = []" "stores_0_or_1 es1"
    using for_keys_events by blast
  show ?thesis
  proof (cases "for_keys (action_of SafeToggleViewState) env (toggle_keys keys) False s")
    case p1: (Pair r1 s1)
    show ?thesis
    proof (cases r1)
      case (Inl e)
      with p1 1 show ?thesis by (simp add: poll_try_def action_of_simps)
    next
      case i1: (Inr a1)
      obtain es2 where 2: "trace (snd (for_keys (action_of SetFirstPersonView) env (fpv_keys keys) a1 s1)) = trace s1 @ es2"
        "filter is_sleep es2 = []" "stores_0_or_1 es2"
        using for_keys_events by blast
      show ?thesis
      proof (cases "for_keys (action_of SetFirstPersonView) env (fpv_keys keys) a1 s1")
        case p2: (Pair r2 s2)
        show ?thesis
        proof (cases r2)
          case (Inl e)
          with p1 i1 p2 1 2 show ?thesis by (simp add: poll_try_def action_of_simps)
        next
          case i2: (Inr a2)
          obtain es3 where 3: "trace (snd (for_keys (action_of SetThirdPersonView) env (tpv_keys keys) a2 s2)) = trace s2 @ es3"
            "filter is_sleep es3 = []" "stores_0_or_1 es3"
            using for_keys_events by blast
          show ?thesis
          proof (cases "for_keys (action_of SetThirdPersonView) env (tpv_keys keys) a2 s2")
            case p3: (Pair r3 s3)
            show ?thesis
            proof (cases r3)
              case (Inl e)
              with p1 i1 p2 i2 p3 1 2 3 show ?thesis by (simp add: poll_try_def action_of_simps)
            next
              case (Inr a3)
              with p1 i1 p2 i2 p3 1 2 3 show ?thesis by (simp add: poll_try_def action_of_simps)
            qed
          qed
        qed
      qed
    qed
  qed
qed

lemma poll_cycle_events:
  "\<exists>es. trace (snd (poll_cycle env keys s)) = trace s @ es \<and> stores_0_or_1 es"
  using poll_try_events [of env keys s] unfolding poll_cycle_eq by blast

lemma polling_loop_events:
  "\<exists>es. trace (snd (polling_loop envs keys s)) = trace s @ es \<and> stores_0_or_1 es"
proof (induction envs arbitrary: s)
  case Nil
  show ?case by simp
next
  case (Cons env envs)
  obtain es where es: "trace (snd (poll_cycle env keys s)) = trace s @ es" "stores_0_or_1 es"
    using poll_cycle_events by blast
  obtain r s1 where c: "poll_cycle env keys s = (r, s1)"
    by (cases "poll_cycle env keys s")
  show ?case
  proof (cases r)
    case (Inl x)
    with c es show ?thesis by simp
  next
    case (Inr u)
    obtain es' where "trace (snd (polling_loop envs keys s1)) = trace s1 @ es'" "stores_0_or_1 es'"
      using Cons.IH by blast
    with c es Inr show ?thesis by simp
  qed
qed

text \<open>
  With the mod's cell readable and the flag byte accessible, the loop runs every
  iteration it is given, and sleeps once in each.
\<close>

lemma polling_loop_returns:
  assumes "storage_readable s" and "flag_accessible s"
  shows "\<exists>s'. polling_loop envs keys s = (Inr (), s') \<and>
           length (filter is_sleep (trace s')) = length (filter is_sleep (trace s)) + length envs"
  using assms
proof (induction envs arbitrary: s)
  case Nil
  show ?case by simp
next
  case (Cons env envs)
  obtain t where t: "poll_try env keys s = (Inr (), t)"
    using poll_try_returns [OF Cons.prems] by blast
  have safe: "storage_readable t" "flag_accessible t"
    using poll_try_edges(3,4) [OF t] Cons.prems by simp_all
  obtain es where es: "trace (snd (poll_try env keys s)) = trace s @ es"
     "(case fst (poll_try env keys s) of
        Inl e \<Rightarrow> filter is_sleep es = []
      | Inr u \<Rightarrow> \<exists>es' ms. es = es' @ [ApiSleep ms] \<and> filter is_sleep es' = [] \<and> (ms = 15 \<or> ms = 50))"
    using poll_try_events by blast
  have sl: "length (filter is_sleep (trace t)) = length (filter is_sleep (trace s)) + 1"
    using es t by auto
  from Cons.IH [OF safe] obtain s' where "polling_loop envs keys t = (Inr (), s')"
     "length (filter is_sleep (trace s')) = length (filter is_sleep (trace t)) + length envs"
    by blast
  with t sl show ?case by (simp add: poll_cycle_eq)
qed

subsection \<open>Claim theorems for toggle\_thread.cpp\<close>

text \<open>
  Claim C1. Whatever the state and the environment, the events of one call of
  \<open>setViewState\<close> contain no load or store that is not preceded, in that same call,
  by a \<open>VirtualQuery\<close> of the address accessed; a call that finds the cell set
  queries the flag address itself. And when the query of the flag address
  fails, or reports a page that is not committed or has no writable protection flag,
  the call returns \<open>false\<close>, leaves the target memory as it was, and performs no load
  or store at all.
\<close>

theorem setViewState_revalidates_page:
  "\<exists>es. trace (snd (setViewState env new_state action_desc key_pressed_vk s)) = trace s @ es \<and>
        queried_before_access [] es \<and>
        (\<forall>r9_value. g_r9_for_tpv_flag s \<noteq> 0 \<and> storage s (g_r9_for_tpv_flag s) = Some r9_value \<and>
                    r9_value \<noteq> 0 \<longrightarrow>
           ApiVirtualQuery (r9_value + TOGGLE_FLAG_OFFSET) \<in> set es) \<and>
        (\<forall>r9_value. storage s (g_r9_for_tpv_flag s) = Some r9_value \<and>
                    page_unsafe env (r9_value + TOGGLE_FLAG_OFFSET) \<longrightarrow>
           fst (setViewState env new_state action_desc key_pressed_vk s) = Inr False \<and>
           mem (snd (setViewState env new_state action_desc key_pressed_vk s)) = mem s \<and>
           filter is_access es = [])"
proof (cases "g_r9_for_tpv_flag s = 0")
  case True
  then show ?thesis by (simp add: setViewState_def)
next
  case nz: False
  show ?thesis
  proof (cases "storage s (g_r9_for_tpv_flag s)")
    case None
    with nz show ?thesis by (simp add: setViewState_def)
  next
    case (Some r9)
    show ?thesis
    proof (cases "r9 = 0")
      case True
      with nz Some show ?thesis by (simp add: setViewState_def)
    next
      case r9nz: False
      show ?thesis
      proof (cases "page_unsafe env (r9 + TOGGLE_FLAG_OFFSET)")
        case True
        with nz Some r9nz show ?thesis
          by (auto simp: setViewState_def Let_def page_unsafe_iff split: option.splits)
      next
        case False
        with nz Some r9nz show ?thesis
          by (auto simp: setViewState_unfold page_unsafe_iff split: option.splits)
      qed
    qed
  qed
qed

theorem setViewState_revalidates_page_witness:
  "page_unsafe readonly_env (0x10000 + TOGGLE_FLAG_OFFSET) \<and>
   fst (setViewState readonly_env 1 ''Set TPV'' 0x72 demo_machine) = Inr False \<and>
   mem (snd (setViewState readonly_env 1 ''Set TPV'' 0x72 demo_machine)) = mem demo_machine \<and>
   filter is_access (trace (snd (setViewState readonly_env 1 ''Set TPV'' 0x72 demo_machine))) = [] \<and>
   queried_before_access [] (trace (snd (setViewState demo_env 1 ''Set TPV'' 0x72 demo_machine))) \<and>
   filter is_access (trace (snd (setViewState demo_env 1 ''Set TPV'' 0x72 demo_machine))) =
     [MemRead 0x10038, MemWrite 0x10038 1]"
proof -
  have cell: "storage demo_machine (g_r9_for_tpv_flag demo_machine) = Some 0x10000"
    and empty: "trace demo_machine = []"
    by (simp_all add: demo_machine_def)
  have unsafe: "page_unsafe readonly_env (0x10000 + TOGGLE_FLAG_OFFSET)"
    by code_simp
  have access: "filter is_access (trace (snd (setViewState demo_env 1 ''Set TPV'' 0x72 demo_machine))) =
     [MemRead 0x10038, MemWrite 0x10038 1]"
    by code_simp
  show ?thesis
    using setViewState_revalidates_page [of readonly_env 1 "''Set TPV''" "0x72" demo_machine]
      setViewState_revalidates_page [of demo_env 1 "''Set TPV''" "0x72" demo_machine]
      cell unsafe access
    by (auto simp: empty)
qed

text \<open>
  Claim C3, as stated, fails: when the flag byte already holds the requested value,
  two calls in a row both succeed and perform no store at all, not exactly one.
\<close>

theorem setViewState_twice_counterexample:
  "fst (setViewState demo_env 1 ''Set TPV'' 0x72 third_person_machine) = Inr True \<and>
   fst (setViewState demo_env 1 ''Set TPV'' 0x72
          (snd (setViewState demo_env 1 ''Set TPV'' 0x72 third_person_machine))) = Inr True \<and>
   length (filter is_write (trace (snd (setViewState demo_env 1 ''Set TPV'' 0x72
          (snd (setViewState demo_env 1 ''Set TPV'' 0x72 third_person_machine)))))) = 0"
  by code_simp

text \<open>
  Claim C3, amended. With the cell set, the page reported committed and writable at
  both calls, and the flag byte accessible: two calls in a row with the same value both
  return \<open>true\<close>; the first performs no store when the byte already holds the value and
  exactly one store of the value otherwise; the second performs none and leaves the
  memory as the first left it, with the byte holding the value.
\<close>

theorem setViewState_twice:
  assumes "g_r9_for_tpv_flag s \<noteq> 0"
    and "storage s (g_r9_for_tpv_flag s) = Some r9_value"
    and "r9_value \<noteq> 0"
    and "flag_addr = r9_value + TOGGLE_FLAG_OFFSET"
    and "\<not> page_unsafe env1 flag_addr"
    and "\<not> page_unsafe env2 flag_addr"
    and "mem s flag_addr = Some current_value"
    and "\<not> write_protected s flag_addr"
    and "s1 = snd (setViewState env1 v d1 k1 s)"
    and "s2 = snd (setViewState env2 v d2 k2 s1)"
  shows "fst (setViewState env1 v d1 k1 s) = Inr True \<and>
         fst (setViewState env2 v d2 k2 s1) = Inr True \<and>
         filter is_write (drop (length (trace s)) (trace s1)) =
           (if current_value = v then [] else [MemWrite flag_addr v]) \<and>
         filter is_write (drop (length (trace s1)) (trace s2)) = [] \<and>
         mem s1 flag_addr = Some v \<and> mem s2 = mem s1"
proof -
  note first = setViewState_ok [OF assms(1-4) assms(5) assms(7) assms(8), of v d1 k1]
  have m1: "mem s1 flag_addr = Some v"
    using first(3) assms(7) by (simp add: assms(9))
  have g1: "g_r9_for_tpv_flag s1 \<noteq> 0" "storage s1 (g_r9_for_tpv_flag s1) = Some r9_value"
      "\<not> write_protected s1 flag_addr"
    using assms(1,2,8) by (simp_all add: assms(9) setViewState_frame)
  note second = setViewState_ok [OF g1(1) g1(2) assms(3) assms(4) assms(6) m1 g1(3), of v d2 k2]
  show ?thesis
    using first second assms(7)
    by (simp add: assms(9) [symmetric] assms(10) [symmetric] m1)
qed

theorem setViewState_twice_witness:
  "fst (setViewState demo_env 1 ''Set TPV'' 0x72 demo_machine) = Inr True \<and>
   fst (setViewState demo_env 1 ''Set TPV'' 0x72
          (snd (setViewState demo_env 1 ''Set TPV'' 0x72 demo_machine))) = Inr True \<and>
   filter is_write (drop (length (trace demo_machine))
      (trace (snd (setViewState demo_env 1 ''Set TPV'' 0x72 demo_machine)))) = [MemWrite 0x10038 1] \<and>
   filter is_write (drop (length (trace (snd (setViewState demo_env 1 ''Set TPV'' 0x72 demo_machine))))
      (trace (snd (setViewState demo_env 1 ''Set TPV'' 0x72
          (snd (setViewState demo_env 1 ''Set TPV'' 0x72 demo_machine)))))) = []"
proof -
  have pre: "g_r9_for_tpv_flag demo_machine \<noteq> 0"
      "storage demo_machine (g_r9_for_tpv_flag demo_machine) = Some 0x10000"
      "(0x10000 :: addr) \<noteq> 0"
      "(0x10038 :: addr) = 0x10000 + TOGGLE_FLAG_OFFSET"
      "mem demo_machine 0x10038 = Some 0"
      "\<not> write_protected demo_machine 0x10038"
    by (simp_all add: demo_machine_def TOGGLE_FLAG_OFFSET_def)
  have safe: "\<not> page_unsafe demo_env 0x10038"
    by code_simp
  show ?thesis
    using setViewState_twice [OF pre(1-4) safe safe pre(5,6) refl refl, of 1 "''Set TPV''" "0x72" "''Set TPV''" "0x72"]
    by simp
qed

text \<open>
  Claim C8. When \<open>safeToggleViewState\<close> passes its own checks (the cell is set,
  \<open>IsBadReadPtr\<close> accepts the flag address and the byte can be read), it reads the flag
  byte once and then is the call of \<open>setViewState\<close> whose new state is 1 if the byte
  read is 0, and 0 for every other byte.
\<close>

theorem safeToggleViewState_delegates:
  assumes "g_r9_for_tpv_flag s \<noteq> 0"
    and "storage s (g_r9_for_tpv_flag s) = Some r9_value"
    and "r9_value \<noteq> 0"
    and "flag_addr = r9_value + TOGGLE_FLAG_OFFSET"
    and "\<not> IsBadReadPtr env flag_addr"
    and "mem s flag_addr = Some current_value"
  shows "safeToggleViewState env key_pressed_vk s =
           setViewState env (if current_value = 0 then 1 else 0) ''Toggle'' key_pressed_vk
             (logger_log LOG_DEBUG (logger_log LOG_DEBUG (emit (MemRead flag_addr)
                (emit (ApiIsBadReadPtr flag_addr) (emit (Call SafeToggleViewState key_pressed_vk) s)))))"
  using assms
  by (simp add: safeToggleViewState_def safeToggleViewState_try_def read_byte_def Let_def)

theorem safeToggleViewState_delegates_witness:
  "mem odd_flag_machine 0x10038 = Some 7 \<and>
   fst (safeToggleViewState demo_env 0x72 odd_flag_machine) = Inr True \<and>
   filter is_access (trace (snd (safeToggleViewState demo_env 0x72 odd_flag_machine))) =
     [MemRead 0x10038, MemRead 0x10038, MemWrite 0x10038 0]"
proof -
  have pre: "g_r9_for_tpv_flag odd_flag_machine \<noteq> 0"
      "storage odd_flag_machine (g_r9_for_tpv_flag odd_flag_machine) = Some 0x10000"
      "(0x10000 :: addr) \<noteq> 0"
      "(0x10038 :: addr) = 0x10000 + TOGGLE_FLAG_OFFSET"
      "\<not> IsBadReadPtr demo_env 0x10038"
      "mem odd_flag_machine 0x10038 = Some 7"
    by (simp_all add: odd_flag_machine_def demo_machine_def demo_env_def TOGGLE_FLAG_OFFSET_def)
  have run: "fst (setViewState demo_env 0 ''Toggle'' 0x72
             (logger_log LOG_DEBUG (logger_log LOG_DEBUG (emit (MemRead 0x10038)
                (emit (ApiIsBadReadPtr 0x10038) (emit (Call SafeToggleViewState 0x72) odd_flag_machine)))))) = Inr True"
    "filter is_access (trace (snd (setViewState demo_env 0 ''Toggle'' 0x72
             (logger_log LOG_DEBUG (logger_log LOG_DEBUG (emit (MemRead 0x10038)
                (emit (ApiIsBadReadPtr 0x10038) (emit (Call SafeToggleViewState 0x72) odd_flag_machine)))))))) =
       [MemRead 0x10038, MemRead 0x10038, MemWrite 0x10038 0]"
    by code_simp+
  show ?thesis
    using safeToggleViewState_delegates [OF pre, of "0x72"] run pre(6)
    by simp
qed

subsection \<open>Claim theorems for the polling loop\<close>

lemma idle_loop_trace:
  "\<exists>es. trace (idle_loop envs s) = trace s @ es \<and> stores_0_or_1 es"
proof (induction envs arbitrary: s)
  case Nil
  show ?case by simp
next
  case (Cons env envs)
  from Cons.IH [of "emit (ApiSleep 5000) s"] show ?case by auto
qed

lemma ToggleThread_stores:
  assumes "stores_0_or_1 (trace s)"
  shows "stores_0_or_1 (trace (snd (ToggleThread param envs s)))"
proof (cases param)
  case None
  with assms show ?thesis by (simp add: ToggleThread_def)
next
  case (Some data)
  show ?thesis
  proof (cases "toggle_keys data = [] \<and> fpv_keys data = [] \<and> tpv_keys data = []")
    case True
    obtain es where "trace (idle_loop envs (logger_log LOG_INFO (logger_log LOG_INFO s))) =
        trace (logger_log LOG_INFO (logger_log LOG_INFO s)) @ es" "stores_0_or_1 es"
      using idle_loop_trace by blast
    with True assms show ?thesis by (simp add: ToggleThread_def Some)
  next
    case False
    define s3 where "s3 = logger_log LOG_INFO
       ((logger_log LOG_INFO (logger_log LOG_INFO (logger_log LOG_INFO (logger_log LOG_INFO s))))
         \<lparr>key_was_down := foldl (\<lambda>m vk. m(vk \<mapsto> False))
             (foldl (\<lambda>m vk. m(vk \<mapsto> False)) (foldl (\<lambda>m vk. m(vk \<mapsto> False)) Map.empty (toggle_keys data))
                (fpv_keys data)) (tpv_keys data)\<rparr>)"
    have t3: "stores_0_or_1 (trace s3)"
      using assms by (simp add: s3_def)
    obtain es where es: "trace (snd (polling_loop envs data s3)) = trace s3 @ es" "stores_0_or_1 es"
      using polling_loop_events by blast
    have "snd (ToggleThread (Some data) envs s) = snd (polling_loop envs data s3)"
      using False
      by (auto simp: ToggleThread_def Let_def s3_def [symmetric] split: prod.splits sum.splits)
    with es t3 show ?thesis by (simp add: Some)
  qed
qed

text \<open>
  What the handlers of the source do catch: the \<open>std::runtime_error\<close> thrown by
  \<open>safeToggleViewState\<close> after a failed \<open>IsBadReadPtr\<close> check is turned into
  \<open>false\<close>.
\<close>

lemma safeToggleViewState_caught:
  assumes "g_r9_for_tpv_flag s \<noteq> 0"
    and "storage s (g_r9_for_tpv_flag s) = Some r9"
    and "r9 \<noteq> 0"
    and "IsBadReadPtr env (r9 + TOGGLE_FLAG_OFFSET)"
  shows "safeToggleViewState env k s =
           (Inr False, logger_log LOG_ERROR (emit (ApiIsBadReadPtr (r9 + TOGGLE_FLAG_OFFSET))
              (emit (Call SafeToggleViewState k) s)))"
  using assms by (auto simp: safeToggle_cases Let_def)

lemma safeToggleViewState_fault:
  assumes "g_r9_for_tpv_flag s \<noteq> 0"
    and "storage s (g_r9_for_tpv_flag s) = Some r9"
    and "r9 \<noteq> 0"
    and "\<not> IsBadReadPtr env (r9 + TOGGLE_FLAG_OFFSET)"
    and "mem s (r9 + TOGGLE_FLAG_OFFSET) = None"
  shows "safeToggleViewState env k s =
           (Inl (AccessViolation (r9 + TOGGLE_FLAG_OFFSET)),
            emit (MemRead (r9 + TOGGLE_FLAG_OFFSET)) (emit (ApiIsBadReadPtr (r9 + TOGGLE_FLAG_OFFSET))
              (emit (Call SafeToggleViewState k) s)))"
  using assms by (auto simp: safeToggle_cases Let_def)

text \<open>
  Claim C4 does not hold of the code. It says that a fault while the flag byte is
  read or written is caught inside \<open>setViewState\<close> and turned into \<open>false\<close>, and
  that whatever goes wrong in a poll cycle is caught at the top of the cycle, after
  which the loop sleeps 1000 ms and goes on. The handlers of the source receive
  C++ exceptions, and a fault is not one. So, with the cell set: when the operating
  system reports the page committed and writable and the access still faults (the byte
  is not mapped, or the store hits a write-protected page), \<open>setViewState\<close> does not
  return \<open>false\<close>: it does not return, the faulting access is its last event, no
  error is logged, and the memory is unchanged. The load of \<open>safeToggleViewState\<close>
  that follows a passed \<open>IsBadReadPtr\<close> check faults in the same way. And a poll cycle
  in which an access faults is not followed by the handler's log and sleep of 1000 ms,
  nor by another cycle: the cycle has not slept at all, and the loop ends with it,
  whatever iterations were still to come.
\<close>

theorem access_violation_ends_thread:
  assumes "g_r9_for_tpv_flag s \<noteq> 0"
    and "storage s (g_r9_for_tpv_flag s) = Some r9_value"
    and "r9_value \<noteq> 0"
    and "flag_addr = r9_value + TOGGLE_FLAG_OFFSET"
  shows "(\<not> page_unsafe env flag_addr \<and>
          (mem s flag_addr = None \<or> mem s flag_addr \<noteq> Some new_state \<and> write_protected s flag_addr) \<longrightarrow>
            fst (setViewState env new_state action_desc key_pressed_vk s) = Inl (AccessViolation flag_addr) \<and>
            trace (snd (setViewState env new_state action_desc key_pressed_vk s)) =
              trace s @ [Log LOG_DEBUG, Log LOG_DEBUG, ApiVirtualQuery flag_addr, Log LOG_DEBUG,
                         MemRead flag_addr] @
              (if mem s flag_addr = None then [] else [Log LOG_DEBUG, MemWrite flag_addr new_state]) \<and>
            mem (snd (setViewState env new_state action_desc key_pressed_vk s)) = mem s) \<and>
         (\<not> IsBadReadPtr env flag_addr \<and> mem s flag_addr = None \<longrightarrow>
            fst (safeToggleViewState env key_pressed_vk s) = Inl (AccessViolation flag_addr)) \<and>
         (\<forall>a. fst (poll_try env keys s) = Inl (AccessViolation a) \<longrightarrow>
            poll_cycle env keys s = poll_try env keys s \<and>
            polling_loop (env # envs) keys s = poll_try env keys s \<and>
            filter is_sleep (drop (length (trace s)) (trace (snd (polling_loop (env # envs) keys s)))) = [])"
proof (intro conjI impI allI)
  assume a: "\<not> page_unsafe env flag_addr \<and>
          (mem s flag_addr = None \<or> mem s flag_addr \<noteq> Some new_state \<and> write_protected s flag_addr)"
  then have unsafe: "\<not> page_unsafe env flag_addr"
    and fault: "mem s flag_addr = None \<or> (mem s flag_addr \<noteq> Some new_state \<and> write_protected s flag_addr)"
    by blast+
  note f = setViewState_fault [OF assms unsafe fault, of action_desc key_pressed_vk]
  show "fst (setViewState env new_state action_desc key_pressed_vk s) = Inl (AccessViolation flag_addr)"
    by (rule f(1))
  show "trace (snd (setViewState env new_state action_desc key_pressed_vk s)) =
              trace s @ [Log LOG_DEBUG, Log LOG_DEBUG, ApiVirtualQuery flag_addr, Log LOG_DEBUG,
                         MemRead flag_addr] @
              (if mem s flag_addr = None then [] else [Log LOG_DEBUG, MemWrite flag_addr new_state])"
    by (rule f(3))
  show "mem (snd (setViewState env new_state action_desc key_pressed_vk s)) = mem s"
    by (rule f(2))
next
  assume "\<not> IsBadReadPtr env flag_addr \<and> mem s flag_addr = None"
  then show "fst (safeToggleViewState env key_pressed_vk s) = Inl (AccessViolation flag_addr)"
    using safeToggleViewState_fault [OF assms(1-3), of env key_pressed_vk] assms(4) by simp
next
  fix a assume a: "fst (poll_try env keys s) = Inl (AccessViolation a)"
  show "poll_cycle env keys s = poll_try env keys s"
    by (rule poll_cycle_eq)
  show loop: "polling_loop (env # envs) keys s = poll_try env keys s"
    using a by (cases "poll_try env keys s") (simp add: poll_cycle_eq)
  obtain es where "trace (snd (poll_try env keys s)) = trace s @ es"
     "(case fst (poll_try env keys s) of
        Inl e \<Rightarrow> filter is_sleep es = []
      | Inr u \<Rightarrow> \<exists>es' ms. es = es' @ [ApiSleep ms] \<and> filter is_sleep es' = [] \<and> (ms = 15 \<or> ms = 50))"
    using poll_try_events by blast
  with a show "filter is_sleep (drop (length (trace s)) (trace (snd (polling_loop (env # envs) keys s)))) = []"
    by (simp add: loop del: polling_loop.simps)
qed

theorem access_violation_ends_thread_witness:
  "\<not> page_unsafe guard_page_env 0x10038 \<and>
   mem unmapped_flag_machine 0x10038 = None \<and>
   fst (setViewState guard_page_env 1 ''Set TPV'' 0x71 unmapped_flag_machine) = Inl (AccessViolation 0x10038) \<and>
   trace (snd (setViewState guard_page_env 1 ''Set TPV'' 0x71 unmapped_flag_machine)) =
     [Log LOG_DEBUG, Log LOG_DEBUG, ApiVirtualQuery 0x10038, Log LOG_DEBUG, MemRead 0x10038] \<and>
   fst (safeToggleViewState guard_page_env 0x72 unmapped_flag_machine) = Inl (AccessViolation 0x10038) \<and>
   fst (poll_cycle guard_page_env demo_keys unmapped_flag_machine) = Inl (AccessViolation 0x10038) \<and>
   polling_loop [guard_page_env, demo_env, demo_env] demo_keys unmapped_flag_machine =
     poll_try guard_page_env demo_keys unmapped_flag_machine \<and>
   trace (snd (polling_loop [guard_page_env, demo_env, demo_env] demo_keys unmapped_flag_machine)) =
     [Log LOG_DEBUG, Call SetThirdPersonView 0x71, Log LOG_DEBUG, Log LOG_DEBUG,
      ApiVirtualQuery 0x10038, Log LOG_DEBUG, MemRead 0x10038] \<and>
   fst (ToggleThread (Some demo_keys) [guard_page_env, demo_env, demo_env] unmapped_flag_machine) =
     Inl (AccessViolation 0x10038) \<and>
   filter is_sleep (trace (snd (ToggleThread (Some demo_keys) [guard_page_env, demo_env, demo_env]
     unmapped_flag_machine))) = []"
proof -
  have pre: "g_r9_for_tpv_flag unmapped_flag_machine \<noteq> 0"
      "storage unmapped_flag_machine (g_r9_for_tpv_flag unmapped_flag_machine) = Some 0x10000"
      "(0x10000 :: addr) \<noteq> 0"
      "(0x10038 :: addr) = 0x10000 + TOGGLE_FLAG_OFFSET"
    and unmapped: "mem unmapped_flag_machine 0x10038 = None"
    and empty: "trace unmapped_flag_machine = []"
    and readable: "\<not> IsBadReadPtr guard_page_env 0x10038"
    by (simp_all add: unmapped_flag_machine_def demo_machine_def TOGGLE_FLAG_OFFSET_def
          guard_page_env_def key_env_def demo_env_def)
  have safe: "\<not> page_unsafe guard_page_env 0x10038"
    by code_simp
  have cycle: "fst (poll_try guard_page_env demo_keys unmapped_flag_machine) = Inl (AccessViolation 0x10038)"
    and events: "trace (snd (poll_try guard_page_env demo_keys unmapped_flag_machine)) =
     [Log LOG_DEBUG, Call SetThirdPersonView 0x71, Log LOG_DEBUG, Log LOG_DEBUG,
      ApiVirtualQuery 0x10038, Log LOG_DEBUG, MemRead 0x10038]"
    by code_simp+
  have run: "fst (ToggleThread (Some demo_keys) [guard_page_env, demo_env, demo_env] unmapped_flag_machine) =
     Inl (AccessViolation 0x10038)"
    "filter is_sleep (trace (snd (ToggleThread (Some demo_keys) [guard_page_env, demo_env, demo_env]
       unmapped_flag_machine))) = []"
    by code_simp+
  note inst = access_violation_ends_thread
      [OF pre, of guard_page_env 1 "''Set TPV''" "0x71" demo_keys "[demo_env, demo_env]"]
  note inst' = access_violation_ends_thread
      [OF pre, of guard_page_env 1 "''Set TPV''" "0x72" demo_keys "[demo_env, demo_env]"]
  have a: "fst (setViewState guard_page_env 1 ''Set TPV'' 0x71 unmapped_flag_machine) = Inl (AccessViolation 0x10038)"
    "trace (snd (setViewState guard_page_env 1 ''Set TPV'' 0x71 unmapped_flag_machine)) =
       [Log LOG_DEBUG, Log LOG_DEBUG, ApiVirtualQuery 0x10038, Log LOG_DEBUG, MemRead 0x10038]"
    using inst safe unmapped by (simp_all add: empty)
  have b: "fst (safeToggleViewState guard_page_env 0x72 unmapped_flag_machine) = Inl (AccessViolation 0x10038)"
    using inst' readable unmapped by blast
  have c: "poll_cycle guard_page_env demo_keys unmapped_flag_machine =
        poll_try guard_page_env demo_keys unmapped_flag_machine"
      "polling_loop [guard_page_env, demo_env, demo_env] demo_keys unmapped_flag_machine =
        poll_try guard_page_env demo_keys unmapped_flag_machine"
    using inst cycle by blast+
  show ?thesis
    using safe unmapped a b run cycle by (simp add: c events del: polling_loop.simps)
qed

text \<open>
  Claim C7. A poll cycle visits the Toggle keys, then the FPV keys, then the TPV keys.
  The actions it invokes are never other than, in this order, the toggle,
  force-first-person and force-third-person of the keys sampled down whose recorded
  last-seen state was up when visited, each once: a cycle that an access fault cuts
  short has invoked the first few of them, and a cycle that completes has invoked
  exactly them. After a cycle that completes, the recorded state of every configured
  key is the fresh sample. When no key is listed twice, the recorded state a visit
  sees is the one from the previous cycle. A cycle completes whenever the mod's cell
  is readable and the flag byte accessible, and both still hold after it; the cell is
  readable after a successful \<open>MainThread\<close> (\<open>MainThread_success_storage_readable\<close>).
  A single Toggle key sampled up, down, down, up, down over five cycles gives two
  toggles, in cycles 2 and 5 (the cycles that end with the short sleep).
\<close>

theorem poll_cycle_edge_triggered:
  assumes "down = key_down env"
    and "m0 = key_was_down s"
    and "m1 = record_samples down m0 (toggle_keys keys)"
    and "m2 = record_samples down m1 (fpv_keys keys)"
    and "s' = snd (poll_cycle env keys s)"
  shows "(storage_readable s \<and> flag_accessible s \<longrightarrow>
            fst (poll_cycle env keys s) = Inr () \<and> storage_readable s' \<and> flag_accessible s') \<and>
         (\<exists>n. filter is_call (trace s') =
            filter is_call (trace s) @
            take n (map (Call SafeToggleViewState) (rising_edges down m0 (toggle_keys keys)) @
                    map (Call SetFirstPersonView) (rising_edges down m1 (fpv_keys keys)) @
                    map (Call SetThirdPersonView) (rising_edges down m2 (tpv_keys keys)))) \<and>
         (fst (poll_cycle env keys s) = Inr () \<longrightarrow>
            filter is_call (trace s') =
              filter is_call (trace s) @
              map (Call SafeToggleViewState) (rising_edges down m0 (toggle_keys keys)) @
              map (Call SetFirstPersonView) (rising_edges down m1 (fpv_keys keys)) @
              map (Call SetThirdPersonView) (rising_edges down m2 (tpv_keys keys)) \<and>
            (\<forall>vk \<in> set (toggle_keys keys @ fpv_keys keys @ tpv_keys keys). key_was_down s' vk = Some (down vk)) \<and>
            (distinct (toggle_keys keys @ fpv_keys keys @ tpv_keys keys) \<longrightarrow>
               filter is_call (trace s') =
                 filter is_call (trace s) @
                 map (Call SafeToggleViewState) (filter (\<lambda>vk. down vk \<and> \<not> last_seen m0 vk) (toggle_keys keys)) @
                 map (Call SetFirstPersonView) (filter (\<lambda>vk. down vk \<and> \<not> last_seen m0 vk) (fpv_keys keys)) @
                 map (Call SetThirdPersonView) (filter (\<lambda>vk. down vk \<and> \<not> last_seen m0 vk) (tpv_keys keys)))) \<and>
         filter (\<lambda>e. is_call e \<or> is_sleep e)
           (trace (snd (ToggleThread (Some \<lparr>toggle_keys = [0x72], fpv_keys = [], tpv_keys = []\<rparr>)
              [key_env 0x72 False, key_env 0x72 True, key_env 0x72 True, key_env 0x72 False, key_env 0x72 True]
              demo_machine))) =
           [ApiSleep 50, Call SafeToggleViewState 0x72, ApiSleep 15, ApiSleep 50, ApiSleep 50,
            Call SafeToggleViewState 0x72, ApiSleep 15]"
proof -
  define calls where "calls =
     map (Call SafeToggleViewState) (rising_edges down m0 (toggle_keys keys)) @
     map (Call SetFirstPersonView) (rising_edges down m1 (fpv_keys keys)) @
     map (Call SetThirdPersonView) (rising_edges down m2 (tpv_keys keys))"
  obtain r t where run: "poll_try env keys s = (r, t)"
    by (cases "poll_try env keys s")
  have s': "s' = t" and res: "fst (poll_cycle env keys s) = r"
    using run by (simp_all add: assms(5) poll_cycle_eq)
  have five: "filter (\<lambda>e. is_call e \<or> is_sleep e)
           (trace (snd (ToggleThread (Some \<lparr>toggle_keys = [0x72], fpv_keys = [], tpv_keys = []\<rparr>)
              [key_env 0x72 False, key_env 0x72 True, key_env 0x72 True, key_env 0x72 False, key_env 0x72 True]
              demo_machine))) =
           [ApiSleep 50, Call SafeToggleViewState 0x72, ApiSleep 15, ApiSleep 50, ApiSleep 50,
            Call SafeToggleViewState 0x72, ApiSleep 15]"
    by code_simp
  have main: "(storage_readable s \<and> flag_accessible s \<longrightarrow>
            r = Inr () \<and> storage_readable t \<and> flag_accessible t) \<and>
         (\<exists>n. filter is_call (trace t) = filter is_call (trace s) @ take n calls) \<and>
         (r = Inr () \<longrightarrow>
            filter is_call (trace t) = filter is_call (trace s) @ calls \<and>
            (\<forall>vk \<in> set (toggle_keys keys @ fpv_keys keys @ tpv_keys keys). key_was_down t vk = Some (down vk)) \<and>
            (distinct (toggle_keys keys @ fpv_keys keys @ tpv_keys keys) \<longrightarrow>
               filter is_call (trace t) =
                 filter is_call (trace s) @
                 map (Call SafeToggleViewState) (filter (\<lambda>vk. down vk \<and> \<not> last_seen m0 vk) (toggle_keys keys)) @
                 map (Call SetFirstPersonView) (filter (\<lambda>vk. down vk \<and> \<not> last_seen m0 vk) (fpv_keys keys)) @
                 map (Call SetThirdPersonView) (filter (\<lambda>vk. down vk \<and> \<not> last_seen m0 vk) (tpv_keys keys))))"
  proof (cases r)
    case (Inl x)
    note a = poll_try_abrupt [OF run [unfolded Inl], folded assms(1), folded assms(2),
        folded assms(3), folded assms(4), folded calls_def]
    from a(2) a(3) Inl show ?thesis by simp
  next
    case (Inr u)
    note e = poll_try_edges [OF run [unfolded Inr], folded assms(1), folded assms(2),
        folded assms(3), folded assms(4), folded calls_def]
    have kw: "key_was_down t vk = Some (down vk)"
      if "vk \<in> set (toggle_keys keys @ fpv_keys keys @ tpv_keys keys)" for vk
    proof (cases "vk \<in> set (tpv_keys keys)")
      case True
      then show ?thesis by (simp add: e(1) record_samples_in)
    next
      case n3: False
      show ?thesis
      proof (cases "vk \<in> set (fpv_keys keys)")
        case True
        with n3 show ?thesis by (simp add: e(1) assms(4) record_samples_in record_samples_notin)
      next
        case False
        with n3 that show ?thesis
          by (simp add: e(1) assms(3,4) record_samples_in record_samples_notin)
      qed
    qed
    have dist: "filter is_call (trace t) =
                filter is_call (trace s) @
                map (Call SafeToggleViewState) (filter (\<lambda>vk. down vk \<and> \<not> last_seen m0 vk) (toggle_keys keys)) @
                map (Call SetFirstPersonView) (filter (\<lambda>vk. down vk \<and> \<not> last_seen m0 vk) (fpv_keys keys)) @
                map (Call SetThirdPersonView) (filter (\<lambda>vk. down vk \<and> \<not> last_seen m0 vk) (tpv_keys keys))"
      if d: "distinct (toggle_keys keys @ fpv_keys keys @ tpv_keys keys)"
    proof -
      have 1: "rising_edges down m0 (toggle_keys keys) =
               filter (\<lambda>vk. down vk \<and> \<not> last_seen m0 vk) (toggle_keys keys)"
        using d by (simp add: rising_edges_distinct)
      have n1: "vk \<notin> set (toggle_keys keys)" if "vk \<in> set (fpv_keys keys)" for vk
        using d that by auto
      have n2: "vk \<notin> set (toggle_keys keys) \<and> vk \<notin> set (fpv_keys keys)" if "vk \<in> set (tpv_keys keys)" for vk
        using d that by auto
      have 2: "rising_edges down m1 (fpv_keys keys) =
               filter (\<lambda>vk. down vk \<and> \<not> last_seen m0 vk) (fpv_keys keys)"
      proof -
        have "rising_edges down m1 (fpv_keys keys) =
               filter (\<lambda>vk. down vk \<and> \<not> last_seen m1 vk) (fpv_keys keys)"
          using d by (simp add: rising_edges_distinct)
        also have "\<dots> = filter (\<lambda>vk. down vk \<and> \<not> last_seen m0 vk) (fpv_keys keys)"
          by (intro filter_cong refl) (simp add: assms(3) last_seen_record_samples n1)
        finally show ?thesis .
      qed
      have 3: "rising_edges down m2 (tpv_keys keys) =
               filter (\<lambda>vk. down vk \<and> \<not> last_seen m0 vk) (tpv_keys keys)"
      proof -
        have "rising_edges down m2 (tpv_keys keys) =
               filter (\<lambda>vk. down vk \<and> \<not> last_seen m2 vk) (tpv_keys keys)"
          using d by (simp add: rising_edges_distinct)
        also have "\<dots> = filter (\<lambda>vk. down vk \<and> \<not> last_seen m0 vk) (tpv_keys keys)"
          by (intro filter_cong refl) (simp add: assms(3,4) last_seen_record_samples n2)
        finally show ?thesis .
      qed
      show ?thesis by (simp add: e(2) calls_def 1 2 3)
    qed
    have all: "\<exists>n. filter is_call (trace t) = filter is_call (trace s) @ take n calls"
      using e(2) by (intro exI [of _ "length calls"]) simp
    have u: "r = Inr ()" using Inr by simp
    show ?thesis
      using u all e(2-4) kw dist by blast
  qed
  show ?thesis
    using main five unfolding s' res calls_def by blast
qed

theorem poll_cycle_edge_triggered_witness:
  "storage_readable demo_machine \<and> flag_accessible demo_machine \<and>
   fst (poll_cycle (key_env 0x72 True) demo_keys demo_machine) = Inr () \<and>
   flag_accessible (snd (poll_cycle (key_env 0x72 True) demo_keys demo_machine)) \<and>
   filter is_call (trace (snd (poll_cycle (key_env 0x72 True) demo_keys demo_machine))) =
     [Call SafeToggleViewState 0x72] \<and>
   key_was_down (snd (poll_cycle (key_env 0x72 True) demo_keys demo_machine)) 0x72 = Some True \<and>
   key_was_down (snd (poll_cycle (key_env 0x72 True) demo_keys demo_machine)) 0x70 = Some False \<and>
   key_was_down (snd (poll_cycle (key_env 0x72 True) demo_keys demo_machine)) 0x71 = Some False"
proof -
  have sr: "storage_readable demo_machine" "flag_accessible demo_machine"
    by (simp_all add: storage_readable_def flag_accessible_def demo_machine_def TOGGLE_FLAG_OFFSET_def)
  have d: "key_down (key_env 0x72 True) 0x72" "\<not> key_down (key_env 0x72 True) 0x70"
      "\<not> key_down (key_env 0x72 True) 0x71"
    by (simp_all add: key_down_def key_env_def demo_env_def)
  note edge = poll_cycle_edge_triggered
      [where env = "key_env 0x72 True" and keys = demo_keys and s = demo_machine,
       OF refl refl refl refl refl]
  have completes: "fst (poll_cycle (key_env 0x72 True) demo_keys demo_machine) = Inr ()"
    and after: "flag_accessible (snd (poll_cycle (key_env 0x72 True) demo_keys demo_machine))"
    using edge sr by blast+
  have calls: "filter is_call (trace (snd (poll_cycle (key_env 0x72 True) demo_keys demo_machine))) =
     [Call SafeToggleViewState 0x72]"
    using edge completes d by (simp add: demo_keys_def demo_machine_def last_seen_def)
  have kw: "\<forall>vk \<in> set (toggle_keys demo_keys @ fpv_keys demo_keys @ tpv_keys demo_keys).
      key_was_down (snd (poll_cycle (key_env 0x72 True) demo_keys demo_machine)) vk =
        Some (key_down (key_env 0x72 True) vk)"
    using edge completes by blast
  show ?thesis
    using sr completes after calls kw d by (simp add: demo_keys_def)
qed

lemma stores_0_or_1_D: "stores_0_or_1 es \<Longrightarrow> MemWrite a v \<in> set es \<Longrightarrow> v = 0 \<or> v = 1"
  by (induction es rule: stores_0_or_1.induct) auto

lemma setViewState_store_effect:
  "\<exists>es. trace (snd (setViewState env v d k s)) = trace s @ es \<and>
        (\<forall>a w. MemWrite a w \<in> set es \<and> fst (setViewState env v d k s) = Inr True \<longrightarrow>
                 mem (snd (setViewState env v d k s)) a = Some w)"
  by (auto simp: setViewState_unfold split: option.splits)

lemma action_store_effect:
  "\<exists>es. trace (snd (action_of A env k s)) = trace s @ Call A k # es \<and>
        (\<forall>a w. MemWrite a w \<in> set es \<and> fst (action_of A env k s) = Inr True \<longrightarrow>
                 mem (snd (action_of A env k s)) a = Some w)"
proof (cases A)
  case SafeToggleViewState
  have *: "\<And>v s' pre. trace s' = trace s @ Call A k # pre \<Longrightarrow> filter is_write pre = [] \<Longrightarrow>
      \<exists>es. trace (snd (setViewState env v ''Toggle'' k s')) = trace s @ Call A k # es \<and>
        (\<forall>a w. MemWrite a w \<in> set es \<and> fst (setViewState env v ''Toggle'' k s') = Inr True \<longrightarrow>
                 mem (snd (setViewState env v ''Toggle'' k s')) a = Some w)"
  proof -
    fix v :: byte and s' :: machine and pre :: "event list"
    assume pre: "trace s' = trace s @ Call A k # pre" "filter is_write pre = []"
    obtain es where es: "trace (snd (setViewState env v ''Toggle'' k s')) = trace s' @ es"
        "\<forall>a w. MemWrite a w \<in> set es \<and> fst (setViewState env v ''Toggle'' k s') = Inr True \<longrightarrow>
                 mem (snd (setViewState env v ''Toggle'' k s')) a = Some w"
      using setViewState_store_effect by blast
    have "MemWrite a w \<notin> set pre" for a w
      using pre(2) by (metis filter_empty_conv is_write.simps(1))
    with es pre(1) show "\<exists>es. trace (snd (setViewState env v ''Toggle'' k s')) = trace s @ Call A k # es \<and>
        (\<forall>a w. MemWrite a w \<in> set es \<and> fst (setViewState env v ''Toggle'' k s') = Inr True \<longrightarrow>
                 mem (snd (setViewState env v ''Toggle'' k s')) a = Some w)"
      by (intro exI [of _ "pre @ es"]) auto
  qed
  show ?thesis
    unfolding action_of_def SafeToggleViewState action.case safeToggle_cases Let_def
    apply (simp split: option.splits)
    apply (intro conjI impI allI)
    subgoal for r9 cur
      by (rule * [unfolded SafeToggleViewState, of _ "[ApiIsBadReadPtr (r9 + TOGGLE_FLAG_OFFSET),
             MemRead (r9 + TOGGLE_FLAG_OFFSET), Log LOG_DEBUG, Log LOG_DEBUG]"]) simp_all
    subgoal for r9 cur
      by (rule * [unfolded SafeToggleViewState, of _ "[ApiIsBadReadPtr (r9 + TOGGLE_FLAG_OFFSET),
             MemRead (r9 + TOGGLE_FLAG_OFFSET), Log LOG_DEBUG, Log LOG_DEBUG]"]) simp_all
    done
next
  case SetFirstPersonView
  then show ?thesis
    using setViewState_store_effect [of env 0 "''Set FPV''" k "emit (Call SetFirstPersonView k) s"]
    by (auto simp: action_of_def setFirstPersonView_def)
next
  case SetThirdPersonView
  then show ?thesis
    using setViewState_store_effect [of env 1 "''Set TPV''" k "emit (Call SetThirdPersonView k) s"]
    by (auto simp: action_of_def setThirdPersonView_def)
qed

subsection \<open>CleanupResources\<close>

lemma call_MH_simps [simp]:
  "call_MH_DisableHook ienv a s =
     (MH_DisableHook ienv (now s) a, emit (MH_DisableHook_call a (MH_DisableHook ienv (now s) a)) s)"
  "call_MH_RemoveHook ienv a s =
     (MH_RemoveHook ienv (now s) a, emit (MH_RemoveHook_call a (MH_RemoveHook ienv (now s) a)) s)"
  "call_MH_Uninitialize ienv s =
     (MH_Uninitialize ienv (now s), emit (MH_Uninitialize_call (MH_Uninitialize ienv (now s))) s)"
  by (simp_all add: call_MH_DisableHook_def call_MH_RemoveHook_def call_MH_Uninitialize_def Let_def)

lemma cleanup_hook_frame [simp]:
  "g_tpvHookAddress (cleanup_hook ienv s) = g_tpvHookAddress s"
  "fpTPV_OriginalCode (cleanup_hook ienv s) = fpTPV_OriginalCode s"
  "g_r9_for_tpv_flag (cleanup_hook ienv s) = g_r9_for_tpv_flag s"
  "storage (cleanup_hook ienv s) = storage s"
  by (simp_all add: cleanup_hook_def)

lemma cleanup_minhook_frame [simp]:
  "g_tpvHookAddress (cleanup_minhook ienv s) = g_tpvHookAddress s"
  "fpTPV_OriginalCode (cleanup_minhook ienv s) = fpTPV_OriginalCode s"
  "g_r9_for_tpv_flag (cleanup_minhook ienv s) = g_r9_for_tpv_flag s"
  "storage (cleanup_minhook ienv s) = storage s"
  by (simp_all add: cleanup_minhook_def)

lemma cleanup_memory_frame [simp]:
  "g_tpvHookAddress (cleanup_memory ienv s) = g_tpvHookAddress s"
  "fpTPV_OriginalCode (cleanup_memory ienv s) = fpTPV_OriginalCode s"
  "g_r9_for_tpv_flag (cleanup_memory ienv s) = 0"
  by (simp_all add: cleanup_memory_def Let_def)

lemma CleanupResources_globals [simp]:
  "g_tpvHookAddress (CleanupResources ienv s) = 0"
  "fpTPV_OriginalCode (CleanupResources ienv s) = 0"
  "g_r9_for_tpv_flag (CleanupResources ienv s) = 0"
  by (simp_all add: CleanupResources_def Let_def)

lemma CleanupResources_clean:
  assumes "g_tpvHookAddress s = 0" and "fpTPV_OriginalCode s = 0" and "g_r9_for_tpv_flag s = 0"
  shows "CleanupResources ienv s =
           s\<lparr>trace := trace s @ [Log LOG_INFO, Log LOG_DEBUG, Log LOG_DEBUG, Log LOG_INFO]\<rparr>"
  using assms
  by (simp add: CleanupResources_def cleanup_hook_def cleanup_minhook_def cleanup_memory_def
        Let_def logger_log_def emit_def)

lemma cleanup_hook_trace:
  "\<exists>es. trace (cleanup_hook ienv s) = trace s @ es \<and> all_released es \<and>
        (\<forall>p freed. ApiVirtualFree p freed \<notin> set es)"
  by (auto simp: cleanup_hook_def)

lemma cleanup_minhook_trace:
  "\<exists>es. trace (cleanup_minhook ienv s) = trace s @ es \<and> all_released es \<and>
        (\<forall>p freed. ApiVirtualFree p freed \<notin> set es) \<and>
        (g_tpvHookAddress s \<noteq> 0 \<longrightarrow> list_ex is_uninitialize es)"
  by (auto simp: cleanup_minhook_def)

lemma cleanup_memory_trace:
  "\<exists>es. trace (cleanup_memory ienv s) = trace s @ es \<and> all_released es \<and>
        (g_r9_for_tpv_flag s \<noteq> 0 \<longrightarrow> list_ex (is_free (g_r9_for_tpv_flag s)) es) \<and>
        (\<forall>p. ApiVirtualFree p True \<in> set es \<longrightarrow> storage (cleanup_memory ienv s) p = None)"
  by (auto simp: cleanup_memory_def Let_def)

lemma all_released_append:
  "all_released xs \<Longrightarrow> all_released ys \<Longrightarrow> all_released (xs @ ys)"
  by (induction xs rule: all_released.induct) auto

lemma CleanupResources_trace:
  "\<exists>es. trace (CleanupResources ienv s) = trace s @ es \<and> all_released es \<and>
        (g_r9_for_tpv_flag s \<noteq> 0 \<longrightarrow> list_ex (is_free (g_r9_for_tpv_flag s)) es) \<and>
        (g_tpvHookAddress s \<noteq> 0 \<longrightarrow> list_ex is_uninitialize es) \<and>
        (\<forall>p. ApiVirtualFree p True \<in> set es \<longrightarrow> storage (CleanupResources ienv s) p = None)"
proof -
  define s1 where "s1 = logger_log LOG_INFO s"
  define s2 where "s2 = cleanup_hook ienv s1"
  define s3 where "s3 = cleanup_minhook ienv s2"
  define s4 where "s4 = cleanup_memory ienv s3"
  obtain e2 where e2: "trace s2 = trace s1 @ e2" "all_released e2" "\<forall>p freed. ApiVirtualFree p freed \<notin> set e2"
    unfolding s2_def using cleanup_hook_trace by blast
  obtain e3 where e3: "trace s3 = trace s2 @ e3" "all_released e3" "\<forall>p freed. ApiVirtualFree p freed \<notin> set e3"
      "g_tpvHookAddress s2 \<noteq> 0 \<longrightarrow> list_ex is_uninitialize e3"
    unfolding s3_def using cleanup_minhook_trace by blast
  obtain e4 where e4: "trace s4 = trace s3 @ e4" "all_released e4"
      "g_r9_for_tpv_flag s3 \<noteq> 0 \<longrightarrow> list_ex (is_free (g_r9_for_tpv_flag s3)) e4"
      "\<forall>p. ApiVirtualFree p True \<in> set e4 \<longrightarrow> storage s4 p = None"
    unfolding s4_def using cleanup_memory_trace by blast
  have r: "CleanupResources ienv s = logger_log LOG_INFO (s4\<lparr>g_tpvHookAddress := 0, fpTPV_OriginalCode := 0\<rparr>)"
    by (simp add: CleanupResources_def Let_def s1_def s2_def s3_def s4_def)
  have g: "g_tpvHookAddress s2 = g_tpvHookAddress s" "g_r9_for_tpv_flag s3 = g_r9_for_tpv_flag s"
    by (simp_all add: s3_def s2_def s1_def)
  let ?es = "Log LOG_INFO # e2 @ e3 @ e4 @ [Log LOG_INFO]"
  have "trace (CleanupResources ienv s) = trace s @ ?es"
    by (simp add: r e4 e3 e2 s1_def)
  moreover have "all_released ?es"
    using e2(2) e3(2) e4(2) by (simp add: all_released_append)
  moreover have "g_r9_for_tpv_flag s \<noteq> 0 \<longrightarrow> list_ex (is_free (g_r9_for_tpv_flag s)) ?es"
    using e4(3) g by simp
  moreover have "g_tpvHookAddress s \<noteq> 0 \<longrightarrow> list_ex is_uninitialize ?es"
    using e3(4) g by simp
  moreover have "\<forall>p. ApiVirtualFree p True \<in> set ?es \<longrightarrow> storage (CleanupResources ienv s) p = None"
    using e2(3) e3(3) e4(4) by (auto simp: r)
  ultimately show ?thesis by blast
qed

lemma unwound_cleanup:
  assumes "trace s1 = trace s @ pre"
    and "g_r9_for_tpv_flag s1 = g_r9_for_tpv_flag s"
    and "\<And>es. all_released es \<Longrightarrow>
            (g_tpvHookAddress s1 \<noteq> 0 \<longrightarrow> list_ex is_uninitialize es) \<Longrightarrow> all_released (pre @ es)"
    and "\<forall>p freed. ApiVirtualFree p freed \<notin> set pre"
  shows "unwound s (1, CleanupResources ienv s1)"
proof -
  obtain es where es: "trace (CleanupResources ienv s1) = trace s1 @ es" "all_released es"
        "g_r9_for_tpv_flag s1 \<noteq> 0 \<longrightarrow> list_ex (is_free (g_r9_for_tpv_flag s1)) es"
        "g_tpvHookAddress s1 \<noteq> 0 \<longrightarrow> list_ex is_uninitialize es"
        "\<forall>p. ApiVirtualFree p True \<in> set es \<longrightarrow> storage (CleanupResources ienv s1) p = None"
    using CleanupResources_trace by blast
  have "trace (CleanupResources ienv s1) = trace s @ (pre @ es)"
    using es(1) assms(1) by simp
  moreover have "all_released (pre @ es)"
    using assms(3) es(2,4) by blast
  moreover have "g_r9_for_tpv_flag s \<noteq> 0 \<longrightarrow> list_ex (is_free (g_r9_for_tpv_flag s)) (pre @ es)"
    using es(3) assms(2) by simp
  moreover have "\<forall>p. ApiVirtualFree p True \<in> set (pre @ es) \<longrightarrow> storage (CleanupResources ienv s1) p = None"
    using es(5) assms(4) by auto
  ultimately show ?thesis
    unfolding unwound_def by (simp del: append_assoc)
qed

lemma phase5_unwound:
  assumes "fst (MainThread_phase5 ienv config s) \<noteq> 0"
  shows "unwound s (MainThread_phase5 ienv config s)"
    and "\<exists>es. trace (snd (MainThread_phase5 ienv config s)) = trace s @ es \<and>
           list_ex (is_disable (g_tpvHookAddress s)) es \<and>
           list_ex (is_remove (g_tpvHookAddress s)) es \<and>
           list_ex is_uninitialize es"
proof -
  have f: "\<not> CreateThread ienv (now (logger_log LOG_INFO s))"
    using assms by (auto simp: MainThread_phase5_def Let_def split: if_splits)
  define s3 where "s3 = logger_log LOG_ERROR (emit (ApiCreateThread False) (logger_log LOG_INFO s))"
  define s4 where "s4 = snd (call_MH_DisableHook ienv (g_tpvHookAddress s3) s3)"
  define s5 where "s5 = snd (call_MH_RemoveHook ienv (g_tpvHookAddress s4) s4)"
  define s6 where "s6 = snd (call_MH_Uninitialize ienv s5)"
  have r: "MainThread_phase5 ienv config s = (1, CleanupResources ienv s6)"
    using f unfolding MainThread_phase5_def Let_def s6_def s5_def s4_def s3_def by simp
  have t6: "trace s6 = trace s @ [Log LOG_INFO, ApiCreateThread False, Log LOG_ERROR,
        MH_DisableHook_call (g_tpvHookAddress s) (MH_DisableHook ienv (now s3) (g_tpvHookAddress s)),
        MH_RemoveHook_call (g_tpvHookAddress s) (MH_RemoveHook ienv (now s4) (g_tpvHookAddress s)),
        MH_Uninitialize_call (MH_Uninitialize ienv (now s5))]"
    and g6: "g_r9_for_tpv_flag s6 = g_r9_for_tpv_flag s"
    by (simp_all add: s6_def s5_def s4_def s3_def)
  show "unwound s (MainThread_phase5 ienv config s)"
    unfolding r by (rule unwound_cleanup [OF t6 g6]) simp_all
  obtain es where "trace (CleanupResources ienv s6) = trace s6 @ es"
    using CleanupResources_trace by blast
  then show "\<exists>es. trace (snd (MainThread_phase5 ienv config s)) = trace s @ es \<and>
           list_ex (is_disable (g_tpvHookAddress s)) es \<and>
           list_ex (is_remove (g_tpvHookAddress s)) es \<and>
           list_ex is_uninitialize es"
    by (simp add: r t6)
qed

lemma phase4_unwound:
  assumes "fst (MainThread_phase4 ienv config s) \<noteq> 0"
  shows "unwound s (MainThread_phase4 ienv config s)"
proof -
  define s1 where "s1 = logger_log LOG_INFO s"
  define i where "i = MH_Initialize ienv (now s1)"
  define s2 where "s2 = emit (MH_Initialize_call i) s1"
  show ?thesis
  proof (cases "i = MH_OK")
    case False
    have r: "MainThread_phase4 ienv config s = (1, CleanupResources ienv (logger_log LOG_ERROR s2))"
      using False unfolding MainThread_phase4_def Let_def s2_def i_def s1_def by simp
    show ?thesis
      unfolding r
      by (rule unwound_cleanup [where pre = "[Log LOG_INFO, MH_Initialize_call i, Log LOG_ERROR]"])
         (simp_all add: s2_def s1_def False)
  next
    case i_ok: True
    define s3 where "s3 = logger_log LOG_INFO s2"
    define created where "created = MH_CreateHook ienv (now s3) (g_tpvHookAddress s3)"
    define s4 where "s4 = emit (MH_CreateHook_call (g_tpvHookAddress s3) (fst created)) s3"
    define s5 where "s5 = (case snd created of None \<Rightarrow> s4
                             | Some continuation \<Rightarrow> s4\<lparr>fpTPV_OriginalCode := continuation\<rparr>)"
    have g3: "g_tpvHookAddress s3 = g_tpvHookAddress s"
      by (simp add: s3_def s2_def s1_def)
    have t5: "trace s5 = trace s @ [Log LOG_INFO, MH_Initialize_call MH_OK, Log LOG_INFO,
         MH_CreateHook_call (g_tpvHookAddress s) (fst created)]"
      and g5: "g_r9_for_tpv_flag s5 = g_r9_for_tpv_flag s" "g_tpvHookAddress s5 = g_tpvHookAddress s"
      by (simp_all add: s5_def s4_def s3_def s2_def s1_def i_ok [symmetric] split: option.splits)
    show ?thesis
    proof (cases "fst created = MH_OK")
      case False
      define s7 where "s7 = snd (call_MH_Uninitialize ienv (logger_log LOG_ERROR s5))"
      have r: "MainThread_phase4 ienv config s = (1, CleanupResources ienv s7)"
        using False i_ok
        unfolding MainThread_phase4_def Let_def s7_def s5_def s4_def created_def s3_def s2_def i_def s1_def
        by simp
      show ?thesis
        unfolding r
        by (rule unwound_cleanup [where pre = "[Log LOG_INFO, MH_Initialize_call MH_OK, Log LOG_INFO,
               MH_CreateHook_call (g_tpvHookAddress s) (fst created), Log LOG_ERROR,
               MH_Uninitialize_call (MH_Uninitialize ienv (now (logger_log LOG_ERROR s5)))]"])
           (simp_all add: s7_def t5 g5 False)
    next
      case c_ok: True
      show ?thesis
      proof (cases "fpTPV_OriginalCode s5 = 0")
        case True
        define s6 where "s6 = logger_log LOG_ERROR s5"
        define s7 where "s7 = snd (call_MH_RemoveHook ienv (g_tpvHookAddress s6) s6)"
        define s8 where "s8 = snd (call_MH_Uninitialize ienv s7)"
        have r: "MainThread_phase4 ienv config s = (1, CleanupResources ienv s8)"
          using True c_ok i_ok
          unfolding MainThread_phase4_def Let_def s8_def s7_def s6_def s5_def s4_def created_def
            s3_def s2_def i_def s1_def
          by simp
        show ?thesis
          unfolding r
          by (rule unwound_cleanup [where pre = "[Log LOG_INFO, MH_Initialize_call MH_OK, Log LOG_INFO,
               MH_CreateHook_call (g_tpvHookAddress s) MH_OK, Log LOG_ERROR,
               MH_RemoveHook_call (g_tpvHookAddress s) (MH_RemoveHook ienv (now s6) (g_tpvHookAddress s)),
               MH_Uninitialize_call (MH_Uninitialize ienv (now s7))]"])
             (simp_all add: s8_def s7_def s6_def t5 g5 c_ok [symmetric])
      next
        case cont: False
        define s6 where "s6 = logger_log LOG_INFO (logger_log LOG_DEBUG s5)"
        define enabled where "enabled = MH_EnableHook ienv (now s6) (g_tpvHookAddress s6)"
        define s7 where "s7 = emit (MH_EnableHook_call (g_tpvHookAddress s6) enabled) s6"
        have t7: "trace s7 = trace s @ [Log LOG_INFO, MH_Initialize_call MH_OK, Log LOG_INFO,
               MH_CreateHook_call (g_tpvHookAddress s) MH_OK, Log LOG_DEBUG, Log LOG_INFO,
               MH_EnableHook_call (g_tpvHookAddress s) enabled]"
          and g7: "g_r9_for_tpv_flag s7 = g_r9_for_tpv_flag s" "g_tpvHookAddress s7 = g_tpvHookAddress s"
          by (simp_all add: s7_def s6_def t5 g5 c_ok [symmetric])
        show ?thesis
        proof (cases "enabled = MH_OK")
          case False
          define s8 where "s8 = logger_log LOG_ERROR s7"
          define s9 where "s9 = snd (call_MH_RemoveHook ienv (g_tpvHookAddress s8) s8)"
          define s10 where "s10 = snd (call_MH_Uninitialize ienv s9)"
          have r: "MainThread_phase4 ienv config s = (1, CleanupResources ienv s10)"
            using False cont c_ok i_ok
            unfolding MainThread_phase4_def Let_def s10_def s9_def s8_def s7_def enabled_def s6_def
              s5_def s4_def created_def s3_def s2_def i_def s1_def
            by simp
          show ?thesis
            unfolding r
            by (rule unwound_cleanup [where pre = "[Log LOG_INFO, MH_Initialize_call MH_OK, Log LOG_INFO,
               MH_CreateHook_call (g_tpvHookAddress s) MH_OK, Log LOG_DEBUG, Log LOG_INFO,
               MH_EnableHook_call (g_tpvHookAddress s) enabled, Log LOG_ERROR,
               MH_RemoveHook_call (g_tpvHookAddress s) (MH_RemoveHook ienv (now s8) (g_tpvHookAddress s)),
               MH_Uninitialize_call (MH_Uninitialize ienv (now s9))]"])
              (simp_all add: s10_def s9_def s8_def t7 g7 False)
        next
          case e_ok: True
          define s8 where "s8 = logger_log LOG_INFO s7"
          have r: "MainThread_phase4 ienv config s = MainThread_phase5 ienv config s8"
            using e_ok cont c_ok i_ok
            unfolding MainThread_phase4_def Let_def s8_def s7_def enabled_def s6_def
              s5_def s4_def created_def s3_def s2_def i_def s1_def
            by simp
          have f5: "fst (MainThread_phase5 ienv config s8) \<noteq> 0"
            using assms by (simp add: r)
          note p5 = phase5_unwound [OF f5]
          obtain es where es: "trace (snd (MainThread_phase5 ienv config s8)) = trace s8 @ es"
              "all_released es"
              "g_r9_for_tpv_flag s8 \<noteq> 0 \<longrightarrow> list_ex (is_free (g_r9_for_tpv_flag s8)) es"
              "\<forall>p. ApiVirtualFree p True \<in> set es \<longrightarrow> storage (snd (MainThread_phase5 ienv config s8)) p = None"
            using p5(1) unfolding unwound_def by blast
          obtain es' where es': "trace (snd (MainThread_phase5 ienv config s8)) = trace s8 @ es'"
              "list_ex (is_disable (g_tpvHookAddress s8)) es'"
              "list_ex (is_remove (g_tpvHookAddress s8)) es'"
              "list_ex is_uninitialize es'"
            using p5(2) by blast
          have same: "es' = es" using es(1) es'(1) by simp
          have t8: "trace s8 = trace s @ [Log LOG_INFO, MH_Initialize_call MH_OK, Log LOG_INFO,
               MH_CreateHook_call (g_tpvHookAddress s) MH_OK, Log LOG_DEBUG, Log LOG_INFO,
               MH_EnableHook_call (g_tpvHookAddress s) MH_OK, Log LOG_INFO]"
            and g8: "g_r9_for_tpv_flag s8 = g_r9_for_tpv_flag s" "g_tpvHookAddress s8 = g_tpvHookAddress s"
            by (simp_all add: s8_def t7 g7 e_ok [symmetric])
          let ?pre = "[Log LOG_INFO, MH_Initialize_call MH_OK, Log LOG_INFO,
               MH_CreateHook_call (g_tpvHookAddress s) MH_OK, Log LOG_DEBUG, Log LOG_INFO,
               MH_EnableHook_call (g_tpvHookAddress s) MH_OK, Log LOG_INFO]"
          have "trace (snd (MainThread_phase5 ienv config s8)) = trace s @ (?pre @ es)"
            using es(1) t8 by simp
          moreover have "all_released (?pre @ es)"
            using es(2) es'(2-4) by (simp add: same g8)
          moreover have "g_r9_for_tpv_flag s \<noteq> 0 \<longrightarrow> list_ex (is_free (g_r9_for_tpv_flag s)) (?pre @ es)"
            using es(3) by (simp add: g8)
          moreover have "\<forall>p. ApiVirtualFree p True \<in> set (?pre @ es) \<longrightarrow>
                storage (snd (MainThread_phase5 ienv config s8)) p = None"
            using es(4) by auto
          ultimately show ?thesis
            using p5(1) unfolding unwound_def r by (simp del: append_assoc append.simps)
        qed
      qed
    qed
  qed
qed

subsection \<open>MainThread\<close>

lemma quiet_prefix:
  assumes "list_all quiet pre"
  shows "all_released (pre @ es) = all_released es"
    and "list_ex (is_free p) (pre @ es) = list_ex (is_free p) es"
    and "ApiVirtualFree p freed \<notin> set pre"
  using assms
  by (induction pre rule: all_released.induct) auto

lemma unwound_prefix:
  assumes "unwound s1 r"
    and "trace s1 = trace s @ pre"
    and "g_r9_for_tpv_flag s1 = g_r9_for_tpv_flag s"
    and "list_all quiet pre"
  shows "unwound s r"
proof -
  obtain es where es: "trace (snd r) = trace s1 @ es" "all_released es"
      "g_r9_for_tpv_flag s1 \<noteq> 0 \<longrightarrow> list_ex (is_free (g_r9_for_tpv_flag s1)) es"
      "\<forall>p. ApiVirtualFree p True \<in> set es \<longrightarrow> storage (snd r) p = None"
    using assms(1) unfolding unwound_def by blast
  have "trace (snd r) = trace s @ (pre @ es)"
    using es(1) assms(2) by simp
  moreover have "all_released (pre @ es)"
    using es(2) by (simp add: quiet_prefix(1) [OF assms(4)])
  moreover have "g_r9_for_tpv_flag s \<noteq> 0 \<longrightarrow> list_ex (is_free (g_r9_for_tpv_flag s)) (pre @ es)"
    using es(3) assms(3) by (simp add: quiet_prefix(2) [OF assms(4)])
  moreover have "\<forall>p. ApiVirtualFree p True \<in> set (pre @ es) \<longrightarrow> storage (snd r) p = None"
    using es(4) quiet_prefix(3) [OF assms(4)] by auto
  ultimately show ?thesis
    using assms(1) unfolding unwound_def by (simp del: append_assoc) 
qed

lemma unwound_cleanup_quiet:
  assumes "trace s1 = trace s @ pre"
    and "g_r9_for_tpv_flag s1 = g_r9_for_tpv_flag s"
    and "list_all quiet pre"
  shows "unwound s (1, CleanupResources ienv s1)"
  by (rule unwound_cleanup [OF assms(1,2)])
     (simp_all add: quiet_prefix [OF assms(3)])

lemma phase3_unwound:
  assumes "fst (MainThread_phase3 ienv config mod_info s) \<noteq> 0"
  shows "unwound s (MainThread_phase3 ienv config mod_info s)"
proof -
  define pattern where "pattern = parseAOB ienv (aob_pattern config)"
  show ?thesis
  proof (cases "pattern = []")
    case True
    have r: "MainThread_phase3 ienv config mod_info s =
        (1, CleanupResources ienv (logger_log LOG_ERROR (logger_log LOG_INFO s)))"
      using True by (simp add: MainThread_phase3_def Let_def pattern_def)
    show ?thesis
      unfolding r
      by (rule unwound_cleanup_quiet [where pre = "[Log LOG_INFO, Log LOG_ERROR]"]) simp_all
  next
    case p: False
    define pattern_start where
      "pattern_start = FindPattern ienv (lpBaseOfDll mod_info) (SizeOfImage mod_info) pattern"
    show ?thesis
    proof (cases "pattern_start = 0")
      case True
      have r: "MainThread_phase3 ienv config mod_info s =
        (1, CleanupResources ienv (logger_log LOG_ERROR (logger_log LOG_INFO (logger_log LOG_INFO s))))"
        using True p by (simp add: MainThread_phase3_def Let_def pattern_def pattern_start_def)
      show ?thesis
        unfolding r
        by (rule unwound_cleanup_quiet [where pre = "[Log LOG_INFO, Log LOG_INFO, Log LOG_ERROR]"]) simp_all
    next
      case False
      define s5 where "s5 = logger_log LOG_INFO
         ((logger_log LOG_INFO (logger_log LOG_INFO (logger_log LOG_INFO s)))
            \<lparr>g_tpvHookAddress := pattern_start + HOOK_OFFSET\<rparr>)"
      have r: "MainThread_phase3 ienv config mod_info s = MainThread_phase4 ienv config s5"
        using False p by (simp add: MainThread_phase3_def Let_def pattern_def pattern_start_def s5_def)
      have "unwound s5 (MainThread_phase4 ienv config s5)"
        using assms by (intro phase4_unwound) (simp add: r)
      then show ?thesis
        unfolding r
        by (rule unwound_prefix [where pre = "[Log LOG_INFO, Log LOG_INFO, Log LOG_INFO, Log LOG_INFO]"])
           (simp_all add: s5_def)
    qed
  qed
qed

lemma module_search_trace:
  "\<exists>es. trace (snd (module_search ienv i game_module s)) = trace s @ es \<and> list_all quiet es \<and>
        g_r9_for_tpv_flag (snd (module_search ienv i game_module s)) = g_r9_for_tpv_flag s"
proof (induction ienv i game_module s rule: module_search.induct)
  case (1 ienv i game_module s)
  show ?case
  proof (cases "i < 30 \<and> game_module = 0")
    case False
    then show ?thesis by (subst (1 2) module_search.simps) auto
  next
    case True
    define found where "found = GetModuleHandleA ienv (now s)"
    define s1 where "s1 = emit (ApiGetModuleHandleA found) s"
    show ?thesis
    proof (cases "found = 0")
      case z: True
      define s2 where "s2 = emit (ApiSleep 1000) (if i = 0 then logger_log LOG_WARNING s1 else s1)"
      have step: "module_search ienv i game_module s = module_search ienv (i + 1) found s2"
        using True z
        by (subst module_search.simps) (simp add: Let_def found_def s1_def s2_def)
      obtain es where es: "trace (snd (module_search ienv (i + 1) found s2)) = trace s2 @ es"
         "list_all quiet es"
         "g_r9_for_tpv_flag (snd (module_search ienv (i + 1) found s2)) = g_r9_for_tpv_flag s2"
        using "1.IH"(1) [OF True found_def s1_def z] unfolding s2_def by blast
      have "\<exists>pre. trace s2 = trace s @ pre \<and> list_all quiet pre"
        by (cases "i = 0") (simp_all add: s2_def s1_def)
      then obtain pre where pre: "trace s2 = trace s @ pre" "list_all quiet pre"
        by blast
      have "trace (snd (module_search ienv i game_module s)) = trace s @ (pre @ es)"
        using es(1) pre(1) by (simp add: step)
      moreover have "list_all quiet (pre @ es)" using es(2) pre(2) by simp
      moreover have "g_r9_for_tpv_flag (snd (module_search ienv i game_module s)) = g_r9_for_tpv_flag s"
        using es(3) by (simp add: step s2_def s1_def)
      ultimately show ?thesis by blast
    next
      case nz: False
      have step: "module_search ienv i game_module s = module_search ienv (i + 1) found s1"
        using True nz
        by (subst module_search.simps) (simp add: Let_def found_def s1_def)
      obtain es where es: "trace (snd (module_search ienv (i + 1) found s1)) = trace s1 @ es"
         "list_all quiet es"
         "g_r9_for_tpv_flag (snd (module_search ienv (i + 1) found s1)) = g_r9_for_tpv_flag s1"
        using "1.IH"(2) [OF True found_def s1_def nz] by blast
      have "trace (snd (module_search ienv i game_module s)) = trace s @ (ApiGetModuleHandleA found # es)"
        using es(1) by (simp add: step s1_def)
      moreover have "list_all quiet (ApiGetModuleHandleA found # es)" using es(2) by simp
      moreover have "g_r9_for_tpv_flag (snd (module_search ienv i game_module s)) = g_r9_for_tpv_flag s"
        using es(3) by (simp add: step s1_def)
      ultimately show ?thesis by blast
    qed
  qed
qed

text \<open>A successful initialization leaves the cell allocated, zeroed and readable.\<close>

lemma module_search_storage:
  "storage (snd (module_search ienv i game_module s)) = storage s \<and>
   g_r9_for_tpv_flag (snd (module_search ienv i game_module s)) = g_r9_for_tpv_flag s"
proof (induction ienv i game_module s rule: module_search.induct)
  case (1 ienv i game_module s)
  show ?case
  proof (cases "i < 30 \<and> game_module = 0")
    case False
    then show ?thesis by (subst (1 2) module_search.simps) auto
  next
    case True
    define found where "found = GetModuleHandleA ienv (now s)"
    define s1 where "s1 = emit (ApiGetModuleHandleA found) s"
    show ?thesis
    proof (cases "found = 0")
      case z: True
      define s2 where "s2 = emit (ApiSleep 1000) (if i = 0 then logger_log LOG_WARNING s1 else s1)"
      have step: "module_search ienv i game_module s = module_search ienv (i + 1) found s2"
        using True z
        by (subst module_search.simps) (simp add: Let_def found_def s1_def s2_def)
      have "storage s2 = storage s" "g_r9_for_tpv_flag s2 = g_r9_for_tpv_flag s"
        by (simp_all add: s2_def s1_def)
      with "1.IH"(1) [OF True found_def s1_def z] show ?thesis
        by (simp add: step s2_def)
    next
      case nz: False
      have step: "module_search ienv i game_module s = module_search ienv (i + 1) found s1"
        using True nz
        by (subst module_search.simps) (simp add: Let_def found_def s1_def)
      from "1.IH"(2) [OF True found_def s1_def nz] show ?thesis
        by (simp add: step s1_def)
    qed
  qed
qed

lemma phase5_success:
  "fst (MainThread_phase5 ienv config s) = 0 \<Longrightarrow>
     storage (snd (MainThread_phase5 ienv config s)) = storage s \<and>
     g_r9_for_tpv_flag (snd (MainThread_phase5 ienv config s)) = g_r9_for_tpv_flag s"
  by (auto simp: MainThread_phase5_def Let_def split: if_splits)

lemma phase4_success:
  "fst (MainThread_phase4 ienv config s) = 0 \<Longrightarrow>
     storage (snd (MainThread_phase4 ienv config s)) = storage s \<and>
     g_r9_for_tpv_flag (snd (MainThread_phase4 ienv config s)) = g_r9_for_tpv_flag s"
  unfolding MainThread_phase4_def Let_def
  by (auto split: if_splits option.splits dest!: phase5_success)

lemma phase3_success:
  "fst (MainThread_phase3 ienv config mod_info s) = 0 \<Longrightarrow>
     storage (snd (MainThread_phase3 ienv config mod_info s)) = storage s \<and>
     g_r9_for_tpv_flag (snd (MainThread_phase3 ienv config mod_info s)) = g_r9_for_tpv_flag s"
  unfolding MainThread_phase3_def Let_def
  by (auto split: if_splits dest!: phase4_success)

lemma MainThread_success_storage_readable:
  assumes "fst (MainThread ienv s) = 0"
  shows "storage_readable (snd (MainThread ienv s))"
    and "g_r9_for_tpv_flag (snd (MainThread ienv s)) \<noteq> 0"
    and "storage (snd (MainThread ienv s)) (g_r9_for_tpv_flag (snd (MainThread ienv s))) = Some 0"
proof -
  have "g_r9_for_tpv_flag (snd (MainThread ienv s)) \<noteq> 0 \<and>
        storage (snd (MainThread ienv s)) (g_r9_for_tpv_flag (snd (MainThread ienv s))) = Some 0"
    using assms module_search_storage
    unfolding MainThread_def Let_def
    by (auto simp: case_prod_beta split: if_splits option.splits dest!: phase3_success)
  then show "storage_readable (snd (MainThread ienv s))"
    and "g_r9_for_tpv_flag (snd (MainThread ienv s)) \<noteq> 0"
    and "storage (snd (MainThread ienv s)) (g_r9_for_tpv_flag (snd (MainThread ienv s))) = Some 0"
    by (simp_all add: storage_readable_def)
qed

subsection \<open>Claim theorems for dllmain.cpp\<close>

text \<open>
  Claim C5. After \<open>CleanupResources\<close> the three globals are null, whatever the state
  before and whatever the hooking library and the operating system answer. Called in a
  state where they are already null (no hook created, no cell allocated), it only logs
  four lines at levels INFO and DEBUG and changes nothing else. So a second call in a
  row only logs those four lines: it disables, removes, uninitializes and frees nothing.
\<close>

theorem CleanupResources_idempotent:
  "g_tpvHookAddress (CleanupResources ienv s) = 0 \<and>
   fpTPV_OriginalCode (CleanupResources ienv s) = 0 \<and>
   g_r9_for_tpv_flag (CleanupResources ienv s) = 0 \<and>
   (g_tpvHookAddress s = 0 \<and> fpTPV_OriginalCode s = 0 \<and> g_r9_for_tpv_flag s = 0 \<longrightarrow>
      CleanupResources ienv s =
        s\<lparr>trace := trace s @ [Log LOG_INFO, Log LOG_DEBUG, Log LOG_DEBUG, Log LOG_INFO]\<rparr>) \<and>
   CleanupResources ienv' (CleanupResources ienv s) =
     (CleanupResources ienv s)
       \<lparr>trace := trace (CleanupResources ienv s) @ [Log LOG_INFO, Log LOG_DEBUG, Log LOG_DEBUG, Log LOG_INFO]\<rparr> \<and>
   filter is_release (drop (length (trace (CleanupResources ienv s)))
      (trace (CleanupResources ienv' (CleanupResources ienv s)))) = []"
proof -
  have twice: "CleanupResources ienv' (CleanupResources ienv s) =
     (CleanupResources ienv s)
       \<lparr>trace := trace (CleanupResources ienv s) @ [Log LOG_INFO, Log LOG_DEBUG, Log LOG_DEBUG, Log LOG_INFO]\<rparr>"
    by (rule CleanupResources_clean) simp_all
  show ?thesis
    by (simp add: CleanupResources_clean twice)
qed

theorem CleanupResources_idempotent_witness:
  "g_tpvHookAddress initial_machine = 0 \<and> fpTPV_OriginalCode initial_machine = 0 \<and>
   g_r9_for_tpv_flag initial_machine = 0 \<and>
   trace (CleanupResources demo_init_env initial_machine) =
     [Log LOG_INFO, Log LOG_DEBUG, Log LOG_DEBUG, Log LOG_INFO] \<and>
   filter is_release (trace (CleanupResources demo_init_env demo_machine)) =
     [MH_DisableHook_call 0x700B MH_OK, MH_RemoveHook_call 0x700B MH_OK, MH_Uninitialize_call MH_OK,
      ApiVirtualFree 0x5000 True] \<and>
   filter is_release (trace (CleanupResources demo_init_env (CleanupResources demo_init_env demo_machine))) =
     [MH_DisableHook_call 0x700B MH_OK, MH_RemoveHook_call 0x700B MH_OK, MH_Uninitialize_call MH_OK,
      ApiVirtualFree 0x5000 True]"
proof -
  have null: "g_tpvHookAddress initial_machine = 0" "fpTPV_OriginalCode initial_machine = 0"
      "g_r9_for_tpv_flag initial_machine = 0" "trace initial_machine = []"
    by (simp_all add: initial_machine_def)
  have first: "filter is_release (trace (CleanupResources demo_init_env demo_machine)) =
     [MH_DisableHook_call 0x700B MH_OK, MH_RemoveHook_call 0x700B MH_OK, MH_Uninitialize_call MH_OK,
      ApiVirtualFree 0x5000 True]"
    by code_simp
  have clean: "CleanupResources demo_init_env initial_machine =
        initial_machine\<lparr>trace := trace initial_machine @ [Log LOG_INFO, Log LOG_DEBUG, Log LOG_DEBUG, Log LOG_INFO]\<rparr>"
    and twice: "CleanupResources demo_init_env (CleanupResources demo_init_env demo_machine) =
     (CleanupResources demo_init_env demo_machine)
       \<lparr>trace := trace (CleanupResources demo_init_env demo_machine) @
           [Log LOG_INFO, Log LOG_DEBUG, Log LOG_DEBUG, Log LOG_INFO]\<rparr>"
    using CleanupResources_idempotent [of demo_init_env initial_machine demo_init_env]
      CleanupResources_idempotent [of demo_init_env demo_machine demo_init_env] null
    by blast+
  show ?thesis
    using null first by (simp add: clean twice)
qed

lemma MainThread_unwound:
  assumes "g_tpvHookAddress s = 0" and "fpTPV_OriginalCode s = 0"
    and "fst (MainThread ienv s) \<noteq> 0"
  shows "fst (MainThread ienv s) = 1 \<and>
         g_r9_for_tpv_flag (snd (MainThread ienv s)) = 0 \<and>
         g_tpvHookAddress (snd (MainThread ienv s)) = 0 \<and>
         fpTPV_OriginalCode (snd (MainThread ienv s)) = 0 \<and>
         (\<exists>es. trace (snd (MainThread ienv s)) = trace s @ es \<and> all_released es \<and>
            (\<forall>p. ApiVirtualFree p True \<in> set es \<longrightarrow> storage (snd (MainThread ienv s)) p = None))"
proof -
  define config where "config = loadConfig ienv"
  define s4 where "s4 = logger_log LOG_INFO (logger_log LOG_INFO (logger_log LOG_DEBUG
     (logger_log LOG_INFO (logger_log LOG_INFO (logger_log LOG_INFO (logger_log LOG_INFO
       (logger_log LOG_INFO (logger_log LOG_DEBUG
          (emit (SetLogLevel (log_level_of (log_level config))) (logger_log LOG_INFO s))))))))))"
  define allocated where "allocated = VirtualAlloc ienv (now s4)"
  define s5 where "s5 = (emit (ApiVirtualAlloc allocated) s4)\<lparr>g_r9_for_tpv_flag := allocated\<rparr>"
  define logs where "logs = [Log LOG_INFO, SetLogLevel (log_level_of (log_level config)), Log LOG_DEBUG,
     Log LOG_INFO, Log LOG_INFO, Log LOG_INFO, Log LOG_INFO, Log LOG_INFO, Log LOG_DEBUG, Log LOG_INFO,
     Log LOG_INFO]"
  have ql: "list_all quiet logs" by (simp add: logs_def)
  have t5: "trace s5 = trace s @ logs @ [ApiVirtualAlloc allocated]"
    and g5: "g_r9_for_tpv_flag s5 = allocated" "g_tpvHookAddress s5 = 0" "fpTPV_OriginalCode s5 = 0"
    using assms(1,2) by (simp_all add: s5_def s4_def logs_def)
  show ?thesis
  proof (cases "allocated = 0")
    case True
    have r: "MainThread ienv s = (1, logger_log LOG_ERROR s5)"
      using True
      unfolding MainThread_def Let_def s5_def allocated_def s4_def config_def by simp
    have "trace (logger_log LOG_ERROR s5) = trace s @ (logs @ [ApiVirtualAlloc 0, Log LOG_ERROR])"
      using t5 True by simp
    moreover have "all_released (logs @ [ApiVirtualAlloc 0, Log LOG_ERROR])"
      by (simp add: quiet_prefix(1) [OF ql])
    moreover have "\<forall>p. ApiVirtualFree p True \<in> set (logs @ [ApiVirtualAlloc 0, Log LOG_ERROR]) \<longrightarrow>
           storage (logger_log LOG_ERROR s5) p = None"
      using quiet_prefix(3) [OF ql] by auto
    ultimately have "\<exists>es. trace (logger_log LOG_ERROR s5) = trace s @ es \<and> all_released es \<and>
            (\<forall>p. ApiVirtualFree p True \<in> set es \<longrightarrow> storage (logger_log LOG_ERROR s5) p = None)"
      by blast
    then show ?thesis
      using g5 True unfolding r by simp
  next
    case alloc: False
    define s7 where "s7 = logger_log LOG_INFO (logger_log LOG_DEBUG
        (s5\<lparr>storage := (storage s5)(g_r9_for_tpv_flag s5 \<mapsto> 0)\<rparr>))"
    define found where "found = module_search ienv 0 0 s7"
    define s8 where "s8 = snd found"
    obtain es8 where es8: "trace s8 = trace s7 @ es8" "list_all quiet es8"
        "g_r9_for_tpv_flag s8 = g_r9_for_tpv_flag s7"
      unfolding s8_def found_def using module_search_trace by blast
    have g7: "g_r9_for_tpv_flag s7 = allocated" and t7: "trace s7 = trace s5 @ [Log LOG_DEBUG, Log LOG_INFO]"
      by (simp_all add: s7_def g5)
    have u: "unwound s8 (MainThread ienv s)"
    proof (cases "fst found = 0")
      case True
      have r: "MainThread ienv s = (1, CleanupResources ienv (logger_log LOG_ERROR s8))"
        using True alloc
        unfolding MainThread_def Let_def s8_def found_def s7_def s5_def allocated_def s4_def config_def
        by (simp add: case_prod_beta)
      show ?thesis
        unfolding r by (rule unwound_cleanup_quiet [where pre = "[Log LOG_ERROR]"]) simp_all
    next
      case mod: False
      define s9 where "s9 = logger_log LOG_INFO s8"
      define info where "info = GetModuleInformation ienv (now s9)"
      define s10 where "s10 = emit (ApiGetModuleInformation (info \<noteq> None)) s9"
      show ?thesis
      proof (cases info)
        case None
        have r: "MainThread ienv s = (1, CleanupResources ienv (logger_log LOG_ERROR s10))"
          using None mod alloc
          unfolding MainThread_def Let_def s10_def info_def s9_def s8_def found_def s7_def s5_def
            allocated_def s4_def config_def
          by (simp add: case_prod_beta)
        show ?thesis
          unfolding r
          by (rule unwound_cleanup_quiet [where pre = "[Log LOG_INFO, ApiGetModuleInformation False, Log LOG_ERROR]"])
             (simp_all add: s10_def s9_def None)
      next
        case (Some mod_info)
        define s11 where "s11 = logger_log LOG_DEBUG s10"
        have r: "MainThread ienv s = MainThread_phase3 ienv config mod_info s11"
          using Some mod alloc
          unfolding MainThread_def Let_def s11_def s10_def info_def s9_def s8_def found_def s7_def s5_def
            allocated_def s4_def config_def
          by (simp add: case_prod_beta)
        have "unwound s11 (MainThread_phase3 ienv config mod_info s11)"
          using assms(3) by (intro phase3_unwound) (simp add: r)
        then show ?thesis
          unfolding r
          by (rule unwound_prefix [where pre = "[Log LOG_INFO, ApiGetModuleInformation True, Log LOG_DEBUG]"])
             (simp_all add: s11_def s10_def s9_def Some)
      qed
    qed
    then obtain es where es: "trace (snd (MainThread ienv s)) = trace s8 @ es" "all_released es"
        "list_ex (is_free allocated) es"
        "\<forall>p. ApiVirtualFree p True \<in> set es \<longrightarrow> storage (snd (MainThread ienv s)) p = None"
      using alloc es8(3) g7 unfolding unwound_def by auto
    let ?q = "[Log LOG_DEBUG, Log LOG_INFO] @ es8"
    have q: "list_all quiet ?q" using es8(2) by simp
    have "trace (snd (MainThread ienv s)) = trace s @ (logs @ ApiVirtualAlloc allocated # ?q @ es)"
      using es(1) es8(1) t7 t5 by simp
    moreover have "all_released (logs @ ApiVirtualAlloc allocated # ?q @ es)"
      using es(2,3) quiet_prefix(1,2) [OF q] by (simp add: quiet_prefix(1) [OF ql])
    moreover have "\<forall>p. ApiVirtualFree p True \<in> set (logs @ ApiVirtualAlloc allocated # ?q @ es) \<longrightarrow>
           storage (snd (MainThread ienv s)) p = None"
      using es(4) quiet_prefix(3) [OF ql] quiet_prefix(3) [OF q] by auto
    ultimately have "\<exists>es. trace (snd (MainThread ienv s)) = trace s @ es \<and> all_released es \<and>
            (\<forall>p. ApiVirtualFree p True \<in> set es \<longrightarrow> storage (snd (MainThread ienv s)) p = None)"
      by blast
    then show ?thesis
      using u unfolding unwound_def by simp
  qed
qed

text \<open>
  Claim C6. Start \<open>MainThread\<close> in a state where no hook exists yet (the hook address
  and the continuation are null, as they are when the DLL is loaded). If it returns a
  nonzero status, that status is 1 and on return: the three globals are null; every
  resource acquired during the run has been released after its acquisition (a cell
  allocated has been handed to \<open>VirtualFree\<close>, an initialized MinHook uninitialized, a
  created hook removed, an enabled hook disabled); the cell that \<open>VirtualFree\<close> has
  released is gone from the storage; and the monitoring thread was never started.
\<close>

theorem MainThread_failure_unwinds:
  assumes "g_tpvHookAddress s = 0" and "fpTPV_OriginalCode s = 0"
    and "fst (MainThread ienv s) \<noteq> 0"
    and "s' = snd (MainThread ienv s)"
  shows "fst (MainThread ienv s) = 1 \<and>
         g_r9_for_tpv_flag s' = 0 \<and> g_tpvHookAddress s' = 0 \<and> fpTPV_OriginalCode s' = 0 \<and>
         (\<exists>es. trace s' = trace s @ es \<and> all_released es \<and>
            (\<forall>thread_data. ThreadStarted thread_data \<notin> set es) \<and>
            (\<forall>p. ApiVirtualFree p True \<in> set es \<longrightarrow> storage s' p = None))"
proof -
  have no_thread: "ThreadStarted thread_data \<notin> set es" if "all_released es" for es thread_data
    using that by (induction es rule: all_released.induct) auto
  show ?thesis
    using MainThread_unwound [OF assms(1-3)] no_thread unfolding assms(4) by blast
qed

theorem MainThread_failure_unwinds_witness:
  "g_tpvHookAddress initial_machine = 0 \<and> fpTPV_OriginalCode initial_machine = 0 \<and>
   fst (MainThread enable_fails_env initial_machine) = 1 \<and>
   g_r9_for_tpv_flag (snd (MainThread enable_fails_env initial_machine)) = 0 \<and>
   g_tpvHookAddress (snd (MainThread enable_fails_env initial_machine)) = 0 \<and>
   fpTPV_OriginalCode (snd (MainThread enable_fails_env initial_machine)) = 0 \<and>
   all_released (trace (snd (MainThread enable_fails_env initial_machine))) \<and>
   filter (\<lambda>e. \<not> quiet e) (trace (snd (MainThread enable_fails_env initial_machine))) =
     [ApiVirtualAlloc 0x5000, MH_Initialize_call MH_OK, MH_CreateHook_call 0x14000100B MH_OK,
      MH_EnableHook_call 0x14000100B MH_ERROR_MEMORY_PROTECT, MH_RemoveHook_call 0x14000100B MH_OK,
      MH_Uninitialize_call MH_OK, MH_DisableHook_call 0x14000100B MH_OK,
      MH_RemoveHook_call 0x14000100B MH_OK, MH_Uninitialize_call MH_OK, ApiVirtualFree 0x5000 True] \<and>
   storage (snd (MainThread enable_fails_env initial_machine)) 0x5000 = None"
proof -
  have null: "g_tpvHookAddress initial_machine = 0" "fpTPV_OriginalCode initial_machine = 0"
      "trace initial_machine = []"
    by (simp_all add: initial_machine_def)
  have failed: "fst (MainThread enable_fails_env initial_machine) \<noteq> 0"
    by code_simp
  have events: "filter (\<lambda>e. \<not> quiet e) (trace (snd (MainThread enable_fails_env initial_machine))) =
     [ApiVirtualAlloc 0x5000, MH_Initialize_call MH_OK, MH_CreateHook_call 0x14000100B MH_OK,
      MH_EnableHook_call 0x14000100B MH_ERROR_MEMORY_PROTECT, MH_RemoveHook_call 0x14000100B MH_OK,
      MH_Uninitialize_call MH_OK, MH_DisableHook_call 0x14000100B MH_OK,
      MH_RemoveHook_call 0x14000100B MH_OK, MH_Uninitialize_call MH_OK, ApiVirtualFree 0x5000 True]"
    by code_simp
  have "ApiVirtualFree 0x5000 True \<in> set (filter (\<lambda>e. \<not> quiet e)
           (trace (snd (MainThread enable_fails_env initial_machine))))"
    unfolding events by simp
  then have freed: "ApiVirtualFree 0x5000 True \<in> set (trace (snd (MainThread enable_fails_env initial_machine)))"
    by simp
  show ?thesis
    using MainThread_failure_unwinds [OF null(1,2) failed refl] null events freed
    by auto
qed

subsection \<open>The memory scanner\<close>

lemma matches_at_iff:
  "matches_at m a pattern \<longleftrightarrow>
     (\<forall>i < length pattern. snd (pattern ! i) \<or> m (a + i) = fst (pattern ! i))"
proof (induction pattern arbitrary: a)
  case Nil
  show ?case by simp
next
  case (Cons p rest)
  obtain b w where p: "p = (b, w)" by (cases p)
  show ?case
  proof
    assume l: "matches_at m a (p # rest)"
    show "\<forall>i < length (p # rest). snd ((p # rest) ! i) \<or> m (a + i) = fst ((p # rest) ! i)"
    proof (intro allI impI)
      fix i assume "i < length (p # rest)"
      then show "snd ((p # rest) ! i) \<or> m (a + i) = fst ((p # rest) ! i)"
        using l Cons.IH [of "Suc a"] by (cases i) (auto simp: p)
    qed
  next
    assume r: "\<forall>i < length (p # rest). snd ((p # rest) ! i) \<or> m (a + i) = fst ((p # rest) ! i)"
    have "snd ((p # rest) ! 0) \<or> m (a + 0) = fst ((p # rest) ! 0)"
      using r by blast
    moreover have "\<forall>i < length rest. snd (rest ! i) \<or> m (Suc a + i) = fst (rest ! i)"
    proof (intro allI impI)
      fix i assume "i < length rest"
      then have "snd ((p # rest) ! Suc i) \<or> m (a + Suc i) = fst ((p # rest) ! Suc i)"
        using r by (metis Suc_less_eq length_Cons)
      then show "snd (rest ! i) \<or> m (Suc a + i) = fst (rest ! i)" by simp
    qed
    ultimately show "matches_at m a (p # rest)"
      using Cons.IH [of "Suc a"] by (simp add: p)
  qed
qed

lemma scan_from_Some:
  "scan_from m pattern a n = Some r \<Longrightarrow>
     a \<le> r \<and> r < a + n \<and> matches_at m r pattern \<and>
     (\<forall>a'. a \<le> a' \<and> a' < r \<longrightarrow> \<not> matches_at m a' pattern)"
proof (induction n arbitrary: a)
  case 0
  then show ?case by simp
next
  case (Suc n)
  show ?case
  proof (cases "matches_at m a pattern")
    case True
    with Suc.prems have "r = a" by simp
    moreover have "\<not> (a \<le> a' \<and> a' < a)" for a' by simp
    ultimately show ?thesis using True by auto
  next
    case False
    with Suc.prems have "scan_from m pattern (Suc a) n = Some r" by simp
    from Suc.IH [OF this] have ih: "Suc a \<le> r" "r < Suc a + n" "matches_at m r pattern"
        "\<forall>a'. Suc a \<le> a' \<and> a' < r \<longrightarrow> \<not> matches_at m a' pattern"
      by blast+
    have "\<not> matches_at m a' pattern" if "a \<le> a' \<and> a' < r" for a'
    proof (cases "a' = a")
      case True
      with False show ?thesis by simp
    next
      case False
      with that have "Suc a \<le> a'" by simp
      with that ih(4) show ?thesis by blast
    qed
    with ih show ?thesis by simp
  qed
qed

lemma scan_from_None:
  "scan_from m pattern a n = None \<longleftrightarrow> (\<forall>a'. a \<le> a' \<and> a' < a + n \<longrightarrow> \<not> matches_at m a' pattern)"
proof (induction n arbitrary: a)
  case 0
  show ?case by auto
next
  case (Suc n)
  show ?case
  proof (cases "matches_at m a pattern")
    case True
    have "a \<le> a \<and> a < a + Suc n" by simp
    with True have "\<exists>a'. a \<le> a' \<and> a' < a + Suc n \<and> matches_at m a' pattern" by blast
    then have "\<not> (\<forall>a'. a \<le> a' \<and> a' < a + Suc n \<longrightarrow> \<not> matches_at m a' pattern)" by blast
    with True show ?thesis by simp
  next
    case False
    have "(\<forall>a'. a \<le> a' \<and> a' < a + Suc n \<longrightarrow> \<not> matches_at m a' pattern) \<longleftrightarrow>
          (\<forall>a'. Suc a \<le> a' \<and> a' < Suc a + n \<longrightarrow> \<not> matches_at m a' pattern)"
      using False by (metis Suc_leI add_Suc add_Suc_right le_neq_implies_less Suc_leD)
    with False Suc.IH [of "Suc a"] show ?thesis by simp
  qed
qed

lemma matches_at_cong:
  "(\<forall>x. a \<le> x \<and> x < a + length pattern \<longrightarrow> m' x = m x) \<Longrightarrow>
     matches_at m' a pattern = matches_at m a pattern"
  by (simp add: matches_at_iff)

lemma scan_from_cong:
  "(\<forall>x. a \<le> x \<and> x < a + n + length pattern - 1 \<longrightarrow> m' x = m x) \<Longrightarrow>
     scan_from m' pattern a n = scan_from m pattern a n"
proof (induction n arbitrary: a)
  case 0
  show ?case by simp
next
  case (Suc n)
  have "matches_at m' a pattern = matches_at m a pattern"
    using Suc.prems by (intro matches_at_cong) auto
  moreover have "scan_from m' pattern (Suc a) n = scan_from m pattern (Suc a) n"
    using Suc.prems by (intro Suc.IH) auto
  ultimately show ?case by simp
qed

text \<open>
  Claim C9, for the scanner as the specification describes it. A result \<open>Some a\<close> is
  an address of the region at which the pattern fits and matches, and no lower address
  of the region matches; the result is \<open>None\<close> exactly when the pattern is longer than
  the region or matches at no address where it fits; matching at an address means that
  every pattern position is a wildcard or equals the byte at that offset; the result
  depends on no byte outside \<open>[base, base + len)\<close>; and in the scenario of section 8,
  where the pattern matches at offsets 0 and 4, the result is offset 0.
\<close>

theorem FindPattern_spec_contract:
  "(\<forall>a. FindPattern_spec m base len pattern = Some a \<longrightarrow>
       base \<le> a \<and> a + length pattern \<le> base + len \<and> matches_at m a pattern \<and>
       (\<forall>a'. base \<le> a' \<and> a' < a \<longrightarrow> \<not> matches_at m a' pattern)) \<and>
   (FindPattern_spec m base len pattern = None \<longleftrightarrow>
       length pattern > len \<or>
       (\<forall>a. base \<le> a \<and> a + length pattern \<le> base + len \<longrightarrow> \<not> matches_at m a pattern)) \<and>
   (\<forall>a. matches_at m a pattern \<longleftrightarrow>
       (\<forall>i < length pattern. snd (pattern ! i) \<or> m (a + i) = fst (pattern ! i))) \<and>
   ((\<forall>x. base \<le> x \<and> x < base + len \<longrightarrow> m' x = m x) \<longrightarrow>
       FindPattern_spec m' base len pattern = FindPattern_spec m base len pattern) \<and>
   matches_at (memory_of 0x1000 scenario_buffer) 0x1000 scenario_pattern \<and>
   matches_at (memory_of 0x1000 scenario_buffer) 0x1004 scenario_pattern \<and>
   FindPattern_spec (memory_of 0x1000 scenario_buffer) 0x1000 8 scenario_pattern = Some 0x1000"
proof (intro conjI allI impI)
  fix a assume s: "FindPattern_spec m base len pattern = Some a"
  then have fits: "length pattern \<le> len"
    and "scan_from m pattern base (len - length pattern + 1) = Some a"
    by (auto simp: FindPattern_spec_def split: if_splits)
  from scan_from_Some [OF this(2)] fits
  show "base \<le> a" "a + length pattern \<le> base + len" "matches_at m a pattern"
    by auto
  fix a' assume "base \<le> a' \<and> a' < a"
  with scan_from_Some [OF \<open>scan_from m pattern base (len - length pattern + 1) = Some a\<close>]
  show "\<not> matches_at m a' pattern" by blast
next
  show "FindPattern_spec m base len pattern = None \<longleftrightarrow>
       length pattern > len \<or>
       (\<forall>a. base \<le> a \<and> a + length pattern \<le> base + len \<longrightarrow> \<not> matches_at m a pattern)"
  proof (cases "length pattern > len")
    case True
    then show ?thesis by (simp add: FindPattern_spec_def)
  next
    case False
    then have range: "\<And>a. (a < base + (len - length pattern + 1)) = (a + length pattern \<le> base + len)"
      by auto
    have "FindPattern_spec m base len pattern = scan_from m pattern base (len - length pattern + 1)"
      using False by (simp add: FindPattern_spec_def)
    also have "\<dots> = None \<longleftrightarrow>
        (\<forall>a. base \<le> a \<and> a < base + (len - length pattern + 1) \<longrightarrow> \<not> matches_at m a pattern)"
      by (rule scan_from_None)
    finally show ?thesis
      using False unfolding range by blast
  qed
next
  fix a
  show "matches_at m a pattern \<longleftrightarrow>
       (\<forall>i < length pattern. snd (pattern ! i) \<or> m (a + i) = fst (pattern ! i))"
    by (rule matches_at_iff)
next
  assume eq: "\<forall>x. base \<le> x \<and> x < base + len \<longrightarrow> m' x = m x"
  show "FindPattern_spec m' base len pattern = FindPattern_spec m base len pattern"
  proof (cases "length pattern > len")
    case True
    then show ?thesis by (simp add: FindPattern_spec_def)
  next
    case False
    then have "scan_from m' pattern base (len - length pattern + 1) =
               scan_from m pattern base (len - length pattern + 1)"
      using eq by (intro scan_from_cong) auto
    with False show ?thesis by (simp add: FindPattern_spec_def)
  qed
next
  show "matches_at (memory_of 0x1000 scenario_buffer) 0x1000 scenario_pattern"
    by code_simp
  show "matches_at (memory_of 0x1000 scenario_buffer) 0x1004 scenario_pattern"
    by code_simp
  show "FindPattern_spec (memory_of 0x1000 scenario_buffer) 0x1000 8 scenario_pattern = Some 0x1000"
    by code_simp
qed

theorem FindPattern_spec_contract_witness:
  "FindPattern_spec (memory_of 0x1000 scenario_buffer) 0x1000 8 scenario_pattern = Some 0x1000 \<and>
   matches_at (memory_of 0x1000 scenario_buffer) 0x1000 scenario_pattern \<and>
   (0x1000 :: nat) + length scenario_pattern \<le> 0x1000 + 8 \<and>
   length scenario_pattern > 3 \<and>
   FindPattern_spec (memory_of 0x1000 scenario_buffer) 0x1000 3 scenario_pattern = None \<and>
   FindPattern_spec (memory_of 0x1000 scenario_buffer) 0x1001 3 scenario_pattern = None"
proof -
  have long: "length scenario_pattern > 3"
    by (simp add: scenario_pattern_def)
  note hit = FindPattern_spec_contract
      [of "memory_of 0x1000 scenario_buffer" "0x1000" 8 scenario_pattern "memory_of 0x1000 scenario_buffer"]
  note miss = FindPattern_spec_contract
      [of "memory_of 0x1000 scenario_buffer" "0x1000" 3 scenario_pattern "memory_of 0x1000 scenario_buffer"]
  note miss' = FindPattern_spec_contract
      [of "memory_of 0x1000 scenario_buffer" "0x1001" 3 scenario_pattern "memory_of 0x1000 scenario_buffer"]
  have found: "FindPattern_spec (memory_of 0x1000 scenario_buffer) 0x1000 8 scenario_pattern = Some 0x1000"
    using hit by blast
  have "matches_at (memory_of 0x1000 scenario_buffer) 0x1000 scenario_pattern"
    "(0x1000 :: nat) + length scenario_pattern \<le> 0x1000 + 8"
    using hit found by blast+
  moreover have "FindPattern_spec (memory_of 0x1000 scenario_buffer) 0x1000 3 scenario_pattern = None"
    using miss long by blast
  moreover have "FindPattern_spec (memory_of 0x1000 scenario_buffer) 0x1001 3 scenario_pattern = None"
    using miss' long by blast
  ultimately show ?thesis
    using found long by blast
qed

subsection \<open>Stores to the flag byte\<close>

lemma cleanup_blocks_no_store:
  "filter is_write (trace (cleanup_hook ienv s)) = filter is_write (trace s)"
  "filter is_write (trace (cleanup_minhook ienv s)) = filter is_write (trace s)"
  "filter is_write (trace (cleanup_memory ienv s)) = filter is_write (trace s)"
  by (simp_all add: cleanup_hook_def cleanup_minhook_def cleanup_memory_def Let_def)

lemma CleanupResources_no_store:
  "filter is_write (trace (CleanupResources ienv s)) = filter is_write (trace s)"
  by (simp add: CleanupResources_def Let_def cleanup_blocks_no_store)

lemma phase5_no_store:
  "filter is_write (trace (snd (MainThread_phase5 ienv config s))) = filter is_write (trace s)"
  by (simp add: MainThread_phase5_def Let_def CleanupResources_no_store)


lemma phase4_no_store:
  "filter is_write (trace (snd (MainThread_phase4 ienv config s))) = filter is_write (trace s)"
  unfolding MainThread_phase4_def Let_def
  by (simp add: CleanupResources_no_store phase5_no_store split: option.splits)

lemma phase3_no_store:
  "filter is_write (trace (snd (MainThread_phase3 ienv config mod_info s))) = filter is_write (trace s)"
  unfolding MainThread_phase3_def Let_def
  by (simp add: CleanupResources_no_store phase4_no_store)


lemma quiet_no_store: "list_all quiet es \<Longrightarrow> filter is_write es = []"
  by (induction es) (auto elim: quiet.elims)

lemma module_search_no_store:
  "filter is_write (trace (snd (module_search ienv i game_module s))) = filter is_write (trace s)"
proof -
  obtain es where "trace (snd (module_search ienv i game_module s)) = trace s @ es" "list_all quiet es"
    using module_search_trace by blast
  then show ?thesis by (simp add: quiet_no_store)
qed


lemma MainThread_no_store:
  "filter is_write (trace (snd (MainThread ienv s))) = filter is_write (trace s)"
proof -
  define config where "config = loadConfig ienv"
  define s4 where "s4 = logger_log LOG_INFO (logger_log LOG_INFO (logger_log LOG_DEBUG
     (logger_log LOG_INFO (logger_log LOG_INFO (logger_log LOG_INFO (logger_log LOG_INFO
       (logger_log LOG_INFO (logger_log LOG_DEBUG
          (emit (SetLogLevel (log_level_of (log_level config))) (logger_log LOG_INFO s))))))))))"
  define allocated where "allocated = VirtualAlloc ienv (now s4)"
  define s5 where "s5 = (emit (ApiVirtualAlloc allocated) s4)\<lparr>g_r9_for_tpv_flag := allocated\<rparr>"
  have w5: "filter is_write (trace s5) = filter is_write (trace s)"
    by (simp add: s5_def s4_def)
  show ?thesis
  proof (cases "allocated = 0")
    case True
    have "MainThread ienv s = (1, logger_log LOG_ERROR s5)"
      using True
      unfolding MainThread_def Let_def s5_def allocated_def s4_def config_def by simp
    then show ?thesis by (simp add: w5)
  next
    case alloc: False
    define s7 where "s7 = logger_log LOG_INFO (logger_log LOG_DEBUG
        (s5\<lparr>storage := (storage s5)(g_r9_for_tpv_flag s5 \<mapsto> 0)\<rparr>))"
    define found where "found = module_search ienv 0 0 s7"
    define s8 where "s8 = snd found"
    have w8: "filter is_write (trace s8) = filter is_write (trace s)"
      by (simp add: s8_def found_def module_search_no_store s7_def w5)
    show ?thesis
    proof (cases "fst found = 0")
      case True
      have "MainThread ienv s = (1, CleanupResources ienv (logger_log LOG_ERROR s8))"
        using True alloc
        unfolding MainThread_def Let_def s8_def found_def s7_def s5_def allocated_def s4_def config_def
        by (simp add: case_prod_beta)
      then show ?thesis by (simp add: CleanupResources_no_store w8)
    next
      case mod: False
      define s9 where "s9 = logger_log LOG_INFO s8"
      define info where "info = GetModuleInformation ienv (now s9)"
      define s10 where "s10 = emit (ApiGetModuleInformation (info \<noteq> None)) s9"
      have w10: "filter is_write (trace s10) = filter is_write (trace s)"
        by (simp add: s10_def s9_def w8)
      show ?thesis
      proof (cases info)
        case None
        have "MainThread ienv s = (1, CleanupResources ienv (logger_log LOG_ERROR s10))"
          using None mod alloc
          unfolding MainThread_def Let_def s10_def info_def s9_def s8_def found_def s7_def s5_def
            allocated_def s4_def config_def
          by (simp add: case_prod_beta)
        then show ?thesis by (simp add: CleanupResources_no_store w10)
      next
        case (Some mod_info)
        have "MainThread ienv s = MainThread_phase3 ienv config mod_info (logger_log LOG_DEBUG s10)"
          using Some mod alloc
          unfolding MainThread_def Let_def s10_def info_def s9_def s8_def found_def s7_def s5_def
            allocated_def s4_def config_def
          by (simp add: case_prod_beta)
        then show ?thesis by (simp add: phase3_no_store w10)
      qed
    qed
  qed
qed

text \<open>
  Claim C10. \<open>setFirstPersonView\<close> and \<open>setThirdPersonView\<close> are \<open>setViewState\<close> with
  the new states 0 and 1. Each of the three view actions stores only 0 or 1, and when it
  has stored a value and returns \<open>true\<close> the byte stored to holds that value. So every
  store that the monitoring thread ever performs, over any run of its loop (also one
  that a fault ends), stores 0 or 1: if that holds of the trace before the thread
  starts, it holds of the trace after.
  \<open>MainThread\<close> and \<open>CleanupResources\<close> perform no store to the target's memory.
\<close>

theorem flag_byte_written_0_or_1:
  "setFirstPersonView env vk s = setViewState env 0 ''Set FPV'' vk (emit (Call SetFirstPersonView vk) s) \<and>
   setThirdPersonView env vk s = setViewState env 1 ''Set TPV'' vk (emit (Call SetThirdPersonView vk) s) \<and>
   (\<forall>A. \<exists>es. trace (snd (action_of A env vk s)) = trace s @ es \<and> stores_0_or_1 es \<and>
      (\<forall>a v. MemWrite a v \<in> set es \<longrightarrow>
         (v = 0 \<or> v = 1) \<and>
         (fst (action_of A env vk s) = Inr True \<longrightarrow> mem (snd (action_of A env vk s)) a = Some v))) \<and>
   (stores_0_or_1 (trace s) \<longrightarrow> stores_0_or_1 (trace (snd (ToggleThread param envs s)))) \<and>
   filter is_write (trace (snd (MainThread ienv s))) = filter is_write (trace s) \<and>
   filter is_write (trace (CleanupResources ienv s)) = filter is_write (trace s)"
proof (intro conjI allI impI)
  show "setFirstPersonView env vk s = setViewState env 0 ''Set FPV'' vk (emit (Call SetFirstPersonView vk) s)"
    by (simp add: setFirstPersonView_def)
  show "setThirdPersonView env vk s = setViewState env 1 ''Set TPV'' vk (emit (Call SetThirdPersonView vk) s)"
    by (simp add: setThirdPersonView_def)
next
  fix A
  obtain es where es: "trace (snd (action_of A env vk s)) = trace s @ Call A vk # es" "stores_0_or_1 es"
    using action_events by blast
  obtain es' where es': "trace (snd (action_of A env vk s)) = trace s @ Call A vk # es'"
    "\<forall>a w. MemWrite a w \<in> set es' \<and> fst (action_of A env vk s) = Inr True \<longrightarrow>
                 mem (snd (action_of A env vk s)) a = Some w"
    using action_store_effect by blast
  have same: "es' = es" using es(1) es'(1) by simp
  have "stores_0_or_1 (Call A vk # es)" using es(2) by simp
  moreover have "(v = 0 \<or> v = 1) \<and>
         (fst (action_of A env vk s) = Inr True \<longrightarrow> mem (snd (action_of A env vk s)) a = Some v)"
    if "MemWrite a v \<in> set (Call A vk # es)" for a v
    using that es(2) es'(2) stores_0_or_1_D [of es a v] by (auto simp: same)
  ultimately show "\<exists>es. trace (snd (action_of A env vk s)) = trace s @ es \<and> stores_0_or_1 es \<and>
      (\<forall>a v. MemWrite a v \<in> set es \<longrightarrow>
         (v = 0 \<or> v = 1) \<and>
         (fst (action_of A env vk s) = Inr True \<longrightarrow> mem (snd (action_of A env vk s)) a = Some v))"
    using es(1) by blast
next
  assume "stores_0_or_1 (trace s)"
  then show "stores_0_or_1 (trace (snd (ToggleThread param envs s)))"
    by (rule ToggleThread_stores)
next
  show "filter is_write (trace (snd (MainThread ienv s))) = filter is_write (trace s)"
    by (rule MainThread_no_store)
  show "filter is_write (trace (CleanupResources ienv s)) = filter is_write (trace s)"
    by (rule CleanupResources_no_store)
qed

theorem flag_byte_written_0_or_1_witness:
  "stores_0_or_1 (trace odd_flag_machine) \<and>
   stores_0_or_1 (trace (snd (ToggleThread (Some demo_keys)
      [key_env 0x72 True, key_env 0x72 False, key_env 0x72 True, key_env 0x71 True] odd_flag_machine))) \<and>
   filter is_write (trace (snd (ToggleThread (Some demo_keys)
      [key_env 0x72 True, key_env 0x72 False, key_env 0x72 True, key_env 0x71 True] odd_flag_machine))) =
     [MemWrite 0x10038 0, MemWrite 0x10038 1]"
proof -
  have before: "stores_0_or_1 (trace odd_flag_machine)"
    by (simp add: odd_flag_machine_def demo_machine_def)
  have writes: "filter is_write (trace (snd (ToggleThread (Some demo_keys)
      [key_env 0x72 True, key_env 0x72 False, key_env 0x72 True, key_env 0x71 True] odd_flag_machine))) =
     [MemWrite 0x10038 0, MemWrite 0x10038 1]"
    by code_simp
  show ?thesis
    using flag_byte_written_0_or_1 [of demo_env "0x72" odd_flag_machine "Some demo_keys"
        "[key_env 0x72 True, key_env 0x72 False, key_env 0x72 True, key_env 0x71 True]"]
      before writes
    by blast
qed

end
